theory Spec2Isabelle
  imports Main "HOL-Library.AList"
begin

section \<open>Strings\<close>

text \<open>
  A Python \<open>str\<close> is modelled as a \<open>string\<close>; a character is a code point below 256.
  \<open>isspace\<close> is \<open>str.isspace\<close> on that range, which is also what \<open>\s\<close> matches in a
  \<open>str\<close> pattern; \<open>isdecimal\<close> is what \<open>\d\<close> matches there.
\<close>

abbreviation LF :: char where "LF \<equiv> CHR 0x0A"
abbreviation CR :: char where "CR \<equiv> CHR 0x0D"

definition isspace :: "char \<Rightarrow> bool" where
  "isspace c = (c \<in> set [CHR 0x09, CHR 0x0A, CHR 0x0B, CHR 0x0C, CHR 0x0D,
                          CHR 0x1C, CHR 0x1D, CHR 0x1E, CHR 0x1F, CHR 0x20, CHR 0x85, CHR 0xA0])"

definition isdecimal :: "char \<Rightarrow> bool" where
  "isdecimal c = (c \<in> set ''0123456789'')"

text \<open>\<open>s.strip(chars)\<close>: drop from both ends every character that is in \<open>chars\<close>.\<close>

definition strip_chars :: "string \<Rightarrow> string \<Rightarrow> string" where
  "strip_chars chars s =
     rev (dropWhile (\<lambda>c. c \<in> set chars) (rev (dropWhile (\<lambda>c. c \<in> set chars) s)))"

text \<open>\<open>s.strip()\<close>: drop whitespace from both ends.\<close>

definition strip :: "string \<Rightarrow> string" where
  "strip s = rev (dropWhile isspace (rev (dropWhile isspace s)))"

text \<open>\<open>s.split(sep)\<close> for a separator of one character: never the empty list.\<close>

fun split_on :: "char \<Rightarrow> string \<Rightarrow> string list" where
  "split_on sep [] = [[]]"
| "split_on sep (c # cs) =
     (if c = sep then [] # split_on sep cs
      else (case split_on sep cs of [] \<Rightarrow> [[c]] | w # ws \<Rightarrow> (c # w) # ws))"

text \<open>\<open>'\n'.join(xs)\<close>.\<close>

fun join_nl :: "string list \<Rightarrow> string" where
  "join_nl [] = []"
| "join_nl [x] = x"
| "join_nl (x # y # ys) = x @ LF # join_nl (y # ys)"

section \<open>Regular expressions, as Python's backtracking matcher runs them\<close>

text \<open>
  Only the constructs of the two patterns of \<open>app.py\<close>. \<open>Dot\<close> is \<open>.\<close> without DOTALL
  (anything but a line feed), \<open>Sym\<close> one literal or escape, \<open>Class\<close> a bracket
  expression, \<open>Bol\<close> is \<open>^\<close> without MULTILINE (the MULTILINE flag of \<open>extract_tables\<close>
  has nothing to act on: its pattern has no anchor), \<open>Opt\<close> is \<open>?\<close>, \<open>Plus\<close> the
  greedy \<open>+\<close>, \<open>LazyStar\<close> the lazy \<open>*?\<close>.
\<close>

datatype item = Lit char | Digit | Space

datatype regex = Dot | Sym item | Class "item list" | Bol
  | Seq regex regex | Alt regex regex | Opt regex | Plus regex | LazyStar regex

fun item_ok :: "item \<Rightarrow> char \<Rightarrow> bool" where
  "item_ok (Lit a) c = (c = a)"
| "item_ok Digit c = isdecimal c"
| "item_ok Space c = isspace c"

text \<open>
  \<open>backtrack n r s\<close> lists what can remain of \<open>s\<close> after \<open>r\<close> has matched a prefix of it,
  in the order in which the backtracking matcher tries the alternatives: the head of the
  list is the match it reports. \<open>n\<close> is the length of the whole subject, so that \<open>^\<close> can
  tell the start. A greedy loop tries another round before it stops, a lazy one stops
  before it tries another round; a round that consumed nothing is not repeated.
\<close>

function backtrack :: "nat \<Rightarrow> regex \<Rightarrow> string \<Rightarrow> string list" where
  "backtrack n Dot s = (case s of [] \<Rightarrow> [] | c # cs \<Rightarrow> if c \<noteq> LF then [cs] else [])"
| "backtrack n (Sym i) s = (case s of [] \<Rightarrow> [] | c # cs \<Rightarrow> if item_ok i c then [cs] else [])"
| "backtrack n (Class is) s =
     (case s of [] \<Rightarrow> [] | c # cs \<Rightarrow> if list_ex (\<lambda>i. item_ok i c) is then [cs] else [])"
| "backtrack n Bol s = (if length s = n then [s] else [])"
| "backtrack n (Seq a b) s = concat (map (backtrack n b) (backtrack n a s))"
| "backtrack n (Alt a b) s = backtrack n a s @ backtrack n b s"
| "backtrack n (Opt a) s = backtrack n a s @ [s]"
| "backtrack n (Plus a) s =
     concat (map (\<lambda>s'. (if length s' < length s then backtrack n (Plus a) s' else []) @ [s'])
                 (backtrack n a s))"
| "backtrack n (LazyStar a) s =
     s # concat (map (\<lambda>s'. if length s' < length s then backtrack n (LazyStar a) s' else [])
                     (backtrack n a s))"
  by pat_completeness auto
termination
  by (relation "inv_image (less_than <*lex*> less_than) (\<lambda>(n, r, s). (size r, length s))") auto

text \<open>\<open>re.match(r, s)\<close> read as a truth value: is there a match at position 0.\<close>

definition re_match :: "regex \<Rightarrow> string \<Rightarrow> bool" where
  "re_match r s = (backtrack (length s) r s \<noteq> [])"

text \<open>
  \<open>re.finditer(r, text)\<close> as the list of \<open>group(0)\<close> of its matches: the leftmost match
  from the current position, then on from the end of that match. An empty match is
  reported and the scan moves one character on.
\<close>

function finditer_from :: "nat \<Rightarrow> regex \<Rightarrow> string \<Rightarrow> string list" where
  "finditer_from n r s =
     (case backtrack n r s of
        [] \<Rightarrow> (case s of [] \<Rightarrow> [] | c # cs \<Rightarrow> finditer_from n r cs)
      | s' # alts \<Rightarrow>
          if length s' < length s
          then take (length s - length s') s # finditer_from n r s'
          else [] # (case s of [] \<Rightarrow> [] | c # cs \<Rightarrow> finditer_from n r cs))"
  by pat_completeness auto
termination
  by (relation "measure (\<lambda>(n, r, s). length s)") auto

definition finditer :: "regex \<Rightarrow> string \<Rightarrow> string list" where
  "finditer r text = finditer_from (length text) r text"

section \<open>extract_sections\<close>

text \<open>The pattern \<^verbatim>\<open>^\d+\.|\#\#?|^\*\*\<close>.\<close>

definition section_pattern :: regex where
  "section_pattern =
     Alt (Seq Bol (Seq (Plus (Sym Digit)) (Sym (Lit (CHR ''.'')))))
    (Alt (Seq (Sym (Lit (CHR ''#''))) (Opt (Sym (Lit (CHR ''#'')))))
         (Seq Bol (Seq (Sym (Lit (CHR ''*''))) (Sym (Lit (CHR ''*''))))))"

text \<open>The condition of the loop's \<open>if\<close>: \<open>re.match(pattern, line.strip())\<close>.\<close>

definition is_heading :: "string \<Rightarrow> bool" where
  "is_heading line = re_match section_pattern (strip line)"

text \<open>The value given to \<open>current_section\<close>: \<^verbatim>\<open>line.strip('*# \n')\<close>.\<close>

definition title :: "string \<Rightarrow> string" where
  "title line = strip_chars (''*# '' @ [LF]) line"

text \<open>
  The three variables of the loop. \<open>sections\<close> is a Python dict: an association list in
  insertion order, where assigning to a key that is present replaces the value in place
  (\<open>AList.update\<close>).
\<close>

record loop_state =
  sections :: "(string \<times> string) list"
  current_section :: "string option"
  current_content :: "string list"

definition init :: loop_state where
  "init = \<lparr>sections = [], current_section = None, current_content = []\<rparr>"

text \<open>
  The block that the source has twice, before a new heading is taken and after the loop:
  \<open>if current_section and current_content\<close>, then the stripped joined content is stored
  if it is not empty. \<open>None\<close> and the empty string are both false.
\<close>

definition commit :: "loop_state \<Rightarrow> (string \<times> string) list" where
  "commit st =
     (case current_section st of
        None \<Rightarrow> sections st
      | Some t \<Rightarrow>
          if t \<noteq> [] \<and> current_content st \<noteq> []
          then (let content = strip (join_nl (current_content st))
                in if content \<noteq> [] then AList.update t content (sections st) else sections st)
          else sections st)"

definition step :: "loop_state \<Rightarrow> string \<Rightarrow> loop_state" where
  "step st line =
     (if is_heading line
      then \<lparr>sections = commit st, current_section = Some (title line), current_content = []\<rparr>
      else (case current_section st of
              None \<Rightarrow> st
            | Some t \<Rightarrow> if t \<noteq> [] then st\<lparr>current_content := current_content st @ [line]\<rparr>
                        else st))"

text \<open>The loop over the lines and the block after it.\<close>

definition sections_of_lines :: "string list \<Rightarrow> (string \<times> string) list" where
  "sections_of_lines ls = commit (foldl step init ls)"

definition extract_sections :: "string \<Rightarrow> (string \<times> string) list" where
  "extract_sections text = sections_of_lines (split_on LF text)"

section \<open>extract_tables\<close>

text \<open>The pattern \<^verbatim>\<open>\|.*?\|[\r\n][-|:\s]+[\r\n](?:\|.*?\|[\r\n])+\<close>.\<close>

definition row_pattern :: regex where
  "row_pattern =
     Seq (Sym (Lit (CHR ''|''))) (Seq (LazyStar Dot)
    (Seq (Sym (Lit (CHR ''|''))) (Class [Lit CR, Lit LF])))"

definition sep_class :: "item list" where
  "sep_class = [Lit (CHR ''-''), Lit (CHR ''|''), Lit (CHR '':''), Space]"

definition table_pattern :: regex where
  "table_pattern =
     Seq row_pattern (Seq (Plus (Class sep_class)) (Seq (Class [Lit CR, Lit LF]) (Plus row_pattern)))"

text \<open>\<^verbatim>\<open>[cell.strip() for cell in line.split('|')[1:-1]]\<close>, used for the header and for each row.\<close>

definition cells :: "string \<Rightarrow> string list" where
  "cells line = map strip (butlast (tl (split_on (CHR ''|'') line)))"

text \<open>
  What the body of the \<open>try\<close> can raise: \<open>lines[0]\<close> on an empty list, or whatever the
  table constructor raises.
\<close>

datatype 'e exn = IndexError | Raised 'e

text \<open>
  The body of the \<open>try\<close> for one matched text. The constructor \<open>pd.DataFrame\<close> is not part
  of the repository; it is the parameter \<open>ctor\<close>, called as
  \<open>ctor data headers\<close> for \<open>pd.DataFrame(data, columns=headers)\<close>.
\<close>

definition parse_table :: "(string list list \<Rightarrow> string list \<Rightarrow> 'e + 'df) \<Rightarrow> string \<Rightarrow> 'e exn + 'df" where
  "parse_table ctor table_text =
     (let lines = map strip (filter (\<lambda>line. strip line \<noteq> []) (split_on LF table_text))
      in case lines of
           [] \<Rightarrow> Inl IndexError
         | l0 # rest \<Rightarrow>
             (let headers = cells l0;
                  data = map cells (drop 2 lines)
              in case ctor data headers of
                   Inl e \<Rightarrow> Inl (Raised e)
                 | Inr df \<Rightarrow> Inr df))"

text \<open>
  The loop over the matches. The result is the list \<open>tables\<close> that the function returns,
  paired with the exceptions handed to \<open>st.error\<close>, in the order they were reported.
\<close>

definition table_step ::
  "(string list list \<Rightarrow> string list \<Rightarrow> 'e + 'df) \<Rightarrow> 'df list \<times> 'e exn list \<Rightarrow> string \<Rightarrow> 'df list \<times> 'e exn list" where
  "table_step ctor acc table_text =
     (case parse_table ctor table_text of
        Inr df \<Rightarrow> (fst acc @ [df], snd acc)
      | Inl e \<Rightarrow> (fst acc, snd acc @ [e]))"

definition extract_tables_with ::
  "(string list list \<Rightarrow> string list \<Rightarrow> 'e + 'df) \<Rightarrow> string \<Rightarrow> 'df list \<times> 'e exn list" where
  "extract_tables_with ctor text = foldl (table_step ctor) ([], []) (finditer table_pattern text)"

text \<open>
  Modelled from the spec: the Table of its data model (column names and rows of cells), as
  the external constructor \<open>pd.DataFrame(data, columns=headers)\<close> builds it from a list of
  rows. No rows give a table with the columns and no row. Otherwise the data is as wide as
  its longest row, shorter rows are filled with missing cells (\<open>None\<close>), and a width that
  differs from the number of column names is refused with a ValueError.
\<close>

datatype table = Table (columns: "string list") (rows: "string option list list")

datatype pandas_error = ValueError

definition DataFrame :: "string list list \<Rightarrow> string list \<Rightarrow> pandas_error + table" where
  "DataFrame data cols =
     (if data = [] then Inr (Table cols [])
      else (let w = foldr max (map length data) 0
            in if w \<noteq> length cols then Inl ValueError
               else Inr (Table cols (map (\<lambda>r. map Some r @ replicate (w - length r) None) data))))"

definition extract_tables :: "string \<Rightarrow> table list \<times> pandas_error exn list" where
  "extract_tables text = extract_tables_with DataFrame text"

section \<open>Notions used in the statements\<close>

text \<open>
  What holds of the dict at every moment: no key twice, no empty key, no empty value.
\<close>

definition wf_sections :: "(string \<times> string) list \<Rightarrow> bool" where
  "wf_sections secs \<longleftrightarrow> distinct (map fst secs) \<and> (\<forall>(k, v)\<in>set secs. k \<noteq> [] \<and> v \<noteq> [])"

text \<open>The titles of the heading lines among \<open>ls\<close>.\<close>

definition titles :: "string list \<Rightarrow> string set" where
  "titles ls = title ` {l \<in> set ls. is_heading l}"

text \<open>The words a pattern can match, whatever the order of the search.\<close>

fun lang :: "regex \<Rightarrow> string set" where
  "lang Dot = {[c] | c. c \<noteq> LF}"
| "lang (Sym i) = {[c] | c. item_ok i c}"
| "lang (Class is) = {[c] | c. list_ex (\<lambda>i. item_ok i c) is}"
| "lang Bol = {[]}"
| "lang (Seq a b) = {u @ v | u v. u \<in> lang a \<and> v \<in> lang b}"
| "lang (Alt a b) = lang a \<union> lang b"
| "lang (Opt a) = lang a \<union> {[]}"
| "lang (Plus a) = {concat ws | ws. ws \<noteq> [] \<and> set ws \<subseteq> lang a}"
| "lang (LazyStar a) = {concat ws | ws. set ws \<subseteq> lang a}"

text \<open>Patterns without \<open>^\<close>: their matches do not depend on where the subject starts.\<close>

fun no_bol :: "regex \<Rightarrow> bool" where
  "no_bol Bol = False"
| "no_bol (Seq a b) = (no_bol a \<and> no_bol b)"
| "no_bol (Alt a b) = (no_bol a \<and> no_bol b)"
| "no_bol (Opt a) = no_bol a"
| "no_bol (Plus a) = no_bol a"
| "no_bol (LazyStar a) = no_bol a"
| "no_bol r = True"

text \<open>
  The shape of a table block, in the words of the claims: a line break is a carriage
  return or a line feed; a separator character is a pipe, a hyphen, a colon or whitespace;
  a pipe-delimited line starts and ends with a pipe and has no line feed in it.
\<close>

definition is_break :: "char \<Rightarrow> bool" where
  "is_break c \<longleftrightarrow> c = CR \<or> c = LF"

definition sep_char :: "char \<Rightarrow> bool" where
  "sep_char c \<longleftrightarrow> c \<in> set ''-|:'' \<or> isspace c"

definition pipe_line :: "string \<Rightarrow> bool" where
  "pipe_line l \<longleftrightarrow> (\<exists>mid. l = CHR ''|'' # mid @ ''|'' \<and> LF \<notin> set mid)"

definition table_block :: "string \<Rightarrow> bool" where
  "table_block m \<longleftrightarrow>
     (\<exists>h b1 sp b2 rs.
        m = h @ b1 # sp @ b2 # concat rs
        \<and> pipe_line h \<and> is_break b1
        \<and> sp \<noteq> [] \<and> (\<forall>c\<in>set sp. sep_char c) \<and> is_break b2
        \<and> rs \<noteq> [] \<and> (\<forall>r\<in>set rs. \<exists>l b. r = l @ [b] \<and> pipe_line l \<and> is_break b))"

text \<open>
  The block of the claim on a valid block, with any cells: the header line \<open>|c1|c2|\<close>, the
  separator line \<open>|-|-|\<close> and the one data line \<open>|a|b|\<close>, each ended by a line feed.
  A cell is valid when it has no pipe and no line break in it.
\<close>

definition valid_cell :: "string \<Rightarrow> bool" where
  "valid_cell s \<longleftrightarrow> (\<forall>c\<in>set s. c \<noteq> CHR ''|'' \<and> c \<noteq> CR \<and> c \<noteq> LF)"

definition cells_block :: "string \<Rightarrow> string \<Rightarrow> string \<Rightarrow> string \<Rightarrow> string" where
  "cells_block c1 c2 a b =
     CHR ''|'' # c1 @ CHR ''|'' # c2 @ CHR ''|'' # LF # ''|-|-|'' @ LF #
     CHR ''|'' # a @ CHR ''|'' # b @ CHR ''|'' # [LF]"

section \<open>Lemmas on strings and on the section loop\<close>

subsection \<open>strip and join\<close>

lemma dropWhile_rev_dropWhile_Nil:
  "dropWhile P (rev (dropWhile P s)) = [] \<longleftrightarrow> (\<forall>c\<in>set s. P c)"
proof
  assume a: "dropWhile P (rev (dropWhile P s)) = []"
  show "\<forall>c\<in>set s. P c"
  proof (cases "dropWhile P s")
    case Nil
    then show ?thesis by simp
  next
    case (Cons x xs)
    then have "\<not> P x" using hd_dropWhile [of P s] by auto
    moreover have "P x" using a Cons by simp
    ultimately show ?thesis by simp
  qed
next
  assume "\<forall>c\<in>set s. P c"
  then have "dropWhile P s = []" by simp
  then show "dropWhile P (rev (dropWhile P s)) = []" by (simp del: dropWhile_eq_Nil_conv)
qed

lemma strip_Nil_iff: "strip s = [] \<longleftrightarrow> (\<forall>c\<in>set s. isspace c)"
  unfolding strip_def using dropWhile_rev_dropWhile_Nil [of isspace s] by (simp del: dropWhile_eq_Nil_conv)

lemma set_join_nl: "set (join_nl ls) \<subseteq> \<Union> (set ` set ls) \<union> {LF}"
  by (induction ls rule: join_nl.induct) auto

lemma isspace_LF: "isspace LF"
  by (simp add: isspace_def)

lemma strip_join_blank:
  assumes "\<forall>l\<in>set B. strip l = []"
  shows "strip (join_nl B) = []"
proof -
  have "\<forall>c\<in>set (join_nl B). isspace c"
  proof
    fix c assume "c \<in> set (join_nl B)"
    then have "c \<in> \<Union> (set ` set B) \<union> {LF}" using set_join_nl by blast
    then show "isspace c" using assms isspace_LF by (auto simp: strip_Nil_iff)
  qed
  then show ?thesis by (simp add: strip_Nil_iff)
qed

lemma not_heading_blank: "strip l = [] \<Longrightarrow> \<not> is_heading l"
  by (simp add: is_heading_def re_match_def section_pattern_def)

subsection \<open>The loop\<close>

lemma step_heading:
  "is_heading l \<Longrightarrow>
   step st l = \<lparr>sections = commit st, current_section = Some (title l), current_content = []\<rparr>"
  by (simp add: step_def)

lemma run_body:
  assumes "\<forall>l\<in>set B. \<not> is_heading l"
  shows "foldl step st B =
     (case current_section st of
        None \<Rightarrow> st
      | Some t \<Rightarrow> if t \<noteq> [] then st\<lparr>current_content := current_content st @ B\<rparr> else st)"
  using assms
proof (induction B arbitrary: st)
  case Nil
  then show ?case by (simp split: option.splits)
next
  case (Cons l B)
  then show ?case by (simp add: step_def split: option.splits)
qed

lemma commit_keys_cases:
  "commit st = sections st \<or>
   (\<exists>t v. current_section st = Some t \<and> t \<noteq> [] \<and> v \<noteq> [] \<and> current_content st \<noteq> []
      \<and> v = strip (join_nl (current_content st)) \<and> commit st = AList.update t v (sections st))"
  by (auto simp: commit_def Let_def split: option.splits)

subsection \<open>What the dict holds\<close>

lemma set_update_subset: "set (AList.update k v al) \<subseteq> insert (k, v) (set al)"
  by (induction al) auto

lemma wf_commit: "wf_sections (sections st) \<Longrightarrow> wf_sections (commit st)"
  using commit_keys_cases [of st] set_update_subset
  by (fastforce simp: wf_sections_def distinct_update)

lemma sections_step: "sections (step st l) = (if is_heading l then commit st else sections st)"
  by (simp add: step_def split: option.splits)

lemma wf_step: "wf_sections (sections st) \<Longrightarrow> wf_sections (sections (step st l))"
  by (simp add: sections_step wf_commit)

lemma wf_run: "wf_sections (sections st) \<Longrightarrow> wf_sections (sections (foldl step st ls))"
  by (induction ls arbitrary: st) (simp_all add: wf_step)

lemma wf_init: "wf_sections (sections init)"
  by (simp add: init_def wf_sections_def)

lemma wf_sections_of_lines: "wf_sections (sections_of_lines ls)"
  unfolding sections_of_lines_def by (intro wf_commit wf_run wf_init)

lemma titles_append: "titles (xs @ ys) = titles xs \<union> titles ys"
  by (auto simp: titles_def)

lemma commit_keys_subset:
  "fst ` set (commit st) \<subseteq> fst ` set (sections st) \<union> set_option (current_section st)"
proof -
  consider "commit st = sections st"
    | t v where "current_section st = Some t" "commit st = AList.update t v (sections st)"
    using commit_keys_cases [of st] by blast
  then show ?thesis
  proof cases
    case 1
    then show ?thesis by auto
  next
    case 2
    then show ?thesis using dom_update [of t v "sections st"] by auto
  qed
qed

lemma current_section_step:
  "current_section (step st l) = (if is_heading l then Some (title l) else current_section st)"
  by (simp add: step_def split: option.splits)

lemma keys_run:
  assumes "fst ` set (sections st) \<union> set_option (current_section st) \<subseteq> T"
  shows "fst ` set (sections (foldl step st ls)) \<union> set_option (current_section (foldl step st ls))
           \<subseteq> T \<union> titles ls"
  using assms
proof (induction ls arbitrary: st T)
  case Nil
  then show ?case by auto
next
  case (Cons l ls)
  have "fst ` set (sections (step st l)) \<union> set_option (current_section (step st l))
          \<subseteq> T \<union> titles [l]"
    using Cons.prems commit_keys_subset [of st]
    by (auto simp: sections_step current_section_step titles_def)
  from Cons.IH [OF this] show ?case
    using titles_append [of "[l]" ls] by auto
qed

lemma keys_sections_of_lines: "fst ` set (sections_of_lines ls) \<subseteq> titles ls"
proof -
  have "fst ` set (sections (foldl step init ls)) \<union> set_option (current_section (foldl step init ls))
          \<subseteq> {} \<union> titles ls"
    by (rule keys_run) (simp add: init_def)
  then show ?thesis
    using commit_keys_subset [of "foldl step init ls"] by (auto simp: sections_of_lines_def)
qed

text \<open>Keys are only ever added at the end.\<close>

lemma commit_prefix: "\<exists>ks. map fst (commit st) = map fst (sections st) @ ks"
  using commit_keys_cases [of st] by (auto simp: update_keys)

lemma run_prefix: "\<exists>ks. map fst (sections (foldl step st ls)) = map fst (sections st) @ ks"
proof (induction ls arbitrary: st)
  case Nil
  then show ?case by simp
next
  case (Cons l ls)
  obtain ks where 1: "map fst (sections (step st l)) = map fst (sections st) @ ks"
    using commit_prefix [of st] by (cases "is_heading l") (auto simp: sections_step)
  obtain ks' where "map fst (sections (foldl step (step st l) ls)) = map fst (sections (step st l)) @ ks'"
    using Cons.IH by blast
  with 1 show ?case by simp
qed

text \<open>A title that no later heading carries keeps its value.\<close>

lemma commit_other:
  "current_section st \<noteq> Some t \<Longrightarrow> map_of (commit st) t = map_of (sections st) t"
  using commit_keys_cases [of st] by (auto simp: update_conv')

lemma run_other:
  assumes "\<forall>l\<in>set ls. is_heading l \<longrightarrow> title l \<noteq> t" and "current_section st \<noteq> Some t"
  shows "map_of (sections (foldl step st ls)) t = map_of (sections st) t
         \<and> current_section (foldl step st ls) \<noteq> Some t"
  using assms
proof (induction ls arbitrary: st)
  case Nil
  then show ?case by simp
next
  case (Cons l ls)
  have "current_section (step st l) \<noteq> Some t"
    using Cons.prems by (simp add: current_section_step)
  moreover have "map_of (sections (step st l)) t = map_of (sections st) t"
    using Cons.prems by (simp add: sections_step commit_other)
  ultimately show ?case using Cons.IH [of "step st l"] Cons.prems by simp
qed

lemma split_on_single: "sep \<notin> set s \<Longrightarrow> split_on sep s = [s]"
  by (induction s) auto

lemma split_on_append: "sep \<notin> set s \<Longrightarrow> split_on sep (s @ sep # r) = s # split_on sep r"
  by (induction s) auto

lemma split_on_join_nl:
  "ls \<noteq> [] \<Longrightarrow> \<forall>l\<in>set ls. LF \<notin> set l \<Longrightarrow> split_on LF (join_nl ls) = ls"
  by (induction ls rule: join_nl.induct) (simp_all add: split_on_single split_on_append)

lemma commit_blank:
  assumes "current_section st = Some t" and "t = [] \<or> strip (join_nl (current_content st)) = []"
  shows "commit st = sections st"
  using assms by (auto simp: commit_def)

lemma drop_segment:
  assumes h: "is_heading h" and B: "\<forall>l\<in>set B. \<not> is_heading l"
    and D: "D = [] \<or> is_heading (hd D)"
    and e: "title h = [] \<or> strip (join_nl B) = []"
  shows "sections_of_lines (A @ h # B @ D) = sections_of_lines (A @ D)"
proof -
  define sA where "sA = foldl step init A"
  define s1 where "s1 = step sA h"
  define s2 where "s2 = foldl step s1 B"
  have s1: "s1 = \<lparr>sections = commit sA, current_section = Some (title h), current_content = []\<rparr>"
    using h by (simp add: s1_def step_heading)
  have s2: "s2 = (if title h \<noteq> [] then s1\<lparr>current_content := B\<rparr> else s1)"
    using run_body [OF B, of s1] by (simp add: s2_def s1)
  have c2: "commit s2 = commit sA"
  proof -
    have "commit s2 = sections s2"
      by (rule commit_blank [where t = "title h"]) (use e in \<open>auto simp: s2 s1\<close>)
    then show ?thesis by (simp add: s2 s1)
  qed
  have run: "foldl step init (A @ h # B @ D) = foldl step s2 D"
    by (simp add: sA_def s1_def s2_def)
  show ?thesis
  proof (cases D)
    case Nil
    then show ?thesis using run c2 by (simp add: sections_of_lines_def sA_def)
  next
    case (Cons d D')
    then have d: "is_heading d" using D by simp
    have "step s2 d = step sA d"
      using d c2 by (simp add: step_heading)
    then show ?thesis
      using run Cons by (simp add: sections_of_lines_def sA_def)
  qed
qed

lemma no_heading_lines:
  assumes "\<forall>l\<in>set ls. \<not> is_heading l"
  shows "sections_of_lines ls = []"
  using run_body [OF assms, of init] by (simp add: sections_of_lines_def init_def commit_def)

lemma values_nonempty:
  assumes "(k, v) \<in> set (sections_of_lines ls)"
  shows "k \<noteq> [] \<and> v \<noteq> []"
  using wf_sections_of_lines [of ls] assms by (auto simp: wf_sections_def)

lemma key_is_title:
  assumes "(k, v) \<in> set (sections_of_lines ls)"
  shows "\<exists>l\<in>set ls. is_heading l \<and> k = title l"
proof -
  have "k \<in> fst ` set (sections_of_lines ls)" using assms by force
  then have "k \<in> titles ls" using keys_sections_of_lines by blast
  then show ?thesis by (auto simp: titles_def)
qed

lemma single_section:
  assumes "is_heading h" and "\<forall>l\<in>set B. \<not> is_heading l"
    and "title h \<noteq> []" and "strip (join_nl B) \<noteq> []"
  shows "sections_of_lines (h # B) = [(title h, strip (join_nl B))]"
proof -
  have "B \<noteq> []" using assms(4) by (auto simp: strip_def)
  moreover have "foldl step init (h # B) =
      \<lparr>sections = [], current_section = Some (title h), current_content = B\<rparr>"
    using run_body [OF assms(2), of "step init h"] assms(1,3)
    by (simp add: step_heading init_def commit_def)
  ultimately show ?thesis
    using assms(3,4) by (simp add: sections_of_lines_def commit_def)
qed

lemma final_prefix:
  "\<exists>ks. map fst (commit (foldl step st ls)) = map fst (sections st) @ ks"
proof -
  obtain ks where "map fst (sections (foldl step st ls)) = map fst (sections st) @ ks"
    using run_prefix by blast
  moreover obtain ks' where
    "map fst (commit (foldl step st ls)) = map fst (sections (foldl step st ls)) @ ks'"
    using commit_prefix by blast
  ultimately show ?thesis by simp
qed

lemma final_other:
  assumes "\<forall>l\<in>set ls. is_heading l \<longrightarrow> title l \<noteq> t" and "current_section st \<noteq> Some t"
  shows "map_of (commit (foldl step st ls)) t = map_of (sections st) t"
  using run_other [OF assms] commit_other [of "foldl step st ls" t] by simp

lemma commit_body:
  assumes "current_section st = Some t" and "t \<noteq> []"
    and "strip (join_nl (current_content st)) \<noteq> []"
  shows "commit st = AList.update t (strip (join_nl (current_content st))) (sections st)"
proof -
  have "current_content st \<noteq> []" using assms(3) by (auto simp: strip_def)
  then show ?thesis using assms by (simp add: commit_def)
qed

lemma after_heading_body:
  assumes "is_heading h" and "\<forall>l\<in>set B. \<not> is_heading l" and "title h \<noteq> []"
  shows "foldl step st (h # B) =
     \<lparr>sections = commit st, current_section = Some (title h), current_content = B\<rparr>"
  using run_body [OF assms(2), of "step st h"] assms(1,3) by (simp add: step_heading)

lemma last_value:
  assumes h: "is_heading h" and t: "title h = t" and ne: "t \<noteq> []"
    and B: "\<forall>l\<in>set B. \<not> is_heading l" and b: "strip (join_nl B) \<noteq> []"
    and D: "D = [] \<or> is_heading (hd D)"
    and later: "\<forall>l\<in>set D. is_heading l \<longrightarrow> title l \<noteq> t"
  shows "map_of (commit (foldl step st (h # B @ D))) t = Some (strip (join_nl B))"
proof -
  define s5 where "s5 = foldl step st (h # B)"
  have s5: "s5 = \<lparr>sections = commit st, current_section = Some t, current_content = B\<rparr>"
    using after_heading_body [OF h B] t ne by (simp add: s5_def)
  have c5: "commit s5 = AList.update t (strip (join_nl B)) (commit st)"
    using commit_body [of s5 t] ne b by (simp add: s5)
  have run: "foldl step st (h # B @ D) = foldl step s5 D"
    by (simp add: s5_def)
  show ?thesis
  proof (cases D)
    case Nil
    then show ?thesis using run c5 by (simp add: update_conv')
  next
    case (Cons d D')
    then have d: "is_heading d" and dt: "title d \<noteq> t" using D later by auto
    define s6 where "s6 = step s5 d"
    have s6: "sections s6 = commit s5" "current_section s6 \<noteq> Some t"
      using d dt by (simp_all add: s6_def step_heading)
    have "map_of (commit (foldl step s6 D')) t = map_of (sections s6) t"
      by (rule final_other) (use later Cons s6 in auto)
    then show ?thesis using run Cons s6 c5 by (simp add: s6_def update_conv')
  qed
qed

lemma first_position:
  assumes h: "is_heading h" and t: "title h = t" and ne: "t \<noteq> []"
    and B: "\<forall>l\<in>set B. \<not> is_heading l" and b: "strip (join_nl B) \<noteq> []"
    and X: "X = [] \<or> is_heading (hd X)"
    and earlier: "\<forall>l\<in>set A. is_heading l \<longrightarrow> title l \<noteq> t"
  shows "\<exists>ks. map fst (sections_of_lines (A @ h # B @ X)) = map fst (sections_of_lines A) @ t # ks"
proof -
  define sA where "sA = foldl step init A"
  define s2 where "s2 = foldl step sA (h # B)"
  have s2: "s2 = \<lparr>sections = commit sA, current_section = Some t, current_content = B\<rparr>"
    using after_heading_body [OF h B] t ne by (simp add: s2_def)
  have "t \<notin> titles A"
    using earlier by (auto simp: titles_def)
  then have "t \<notin> fst ` set (sections_of_lines A)"
    using keys_sections_of_lines [of A] by blast
  then have notin: "t \<notin> set (map fst (commit sA))"
    by (simp add: sections_of_lines_def sA_def)
  have c2: "map fst (commit s2) = map fst (sections_of_lines A) @ [t]"
    using commit_body [of s2 t] ne b notin
    by (simp add: s2 update_keys sections_of_lines_def sA_def)
  have run: "foldl step init (A @ h # B @ X) = foldl step s2 X"
    by (simp add: s2_def sA_def)
  show ?thesis
  proof (cases X)
    case Nil
    then show ?thesis using run c2 by (simp add: sections_of_lines_def)
  next
    case (Cons x X')
    then have x: "is_heading x" using X by simp
    define s3 where "s3 = step s2 x"
    have s3: "sections s3 = commit s2" using x by (simp add: s3_def step_heading)
    obtain ks where "map fst (commit (foldl step s3 X')) = map fst (sections s3) @ ks"
      using final_prefix by blast
    then show ?thesis using run Cons s3 c2 by (simp add: sections_of_lines_def s3_def)
  qed
qed

lemma key_once:
  assumes "map fst (sections_of_lines ls) = K @ t # ks"
  shows "count_list (map fst (sections_of_lines ls)) t = 1
         \<and> takeWhile (\<lambda>k. k \<noteq> t) (map fst (sections_of_lines ls)) = K"
proof -
  have "distinct (K @ t # ks)"
    using wf_sections_of_lines [of ls] assms by (simp add: wf_sections_def)
  then have "t \<notin> set K" "t \<notin> set ks" by auto
  then have "takeWhile (\<lambda>k. k \<noteq> t) (K @ t # ks) = K"
    by (induction K) auto
  moreover have "count_list (K @ t # ks) t = 1"
    using \<open>t \<notin> set K\<close> \<open>t \<notin> set ks\<close> by (simp add: count_list_0_iff)
  ultimately show ?thesis using assms by simp
qed

lemma heading_retained:
  assumes h: "is_heading h" and ne: "title h \<noteq> []"
    and B: "\<forall>l\<in>set B. \<not> is_heading l" and b: "strip (join_nl B) \<noteq> []"
    and D: "D = [] \<or> is_heading (hd D)"
  shows "title h \<in> fst ` set (sections_of_lines (A @ h # B @ D))"
proof -
  define s5 where "s5 = foldl step (foldl step init A) (h # B)"
  have s5: "s5 = \<lparr>sections = commit (foldl step init A), current_section = Some (title h),
                  current_content = B\<rparr>"
    unfolding s5_def by (rule after_heading_body [OF h B ne])
  have "commit s5 = AList.update (title h) (strip (join_nl B)) (commit (foldl step init A))"
    using commit_body [of s5 "title h"] ne b by (simp add: s5)
  then have c5: "title h \<in> set (map fst (commit s5))"
    using dom_update [of "title h" "strip (join_nl B)" "commit (foldl step init A)"] by simp
  have run: "foldl step init (A @ h # B @ D) = foldl step s5 D"
    by (simp add: s5_def)
  have "title h \<in> set (map fst (sections_of_lines (A @ h # B @ D)))"
  proof (cases D)
    case Nil
    then show ?thesis using run c5 by (simp add: sections_of_lines_def)
  next
    case (Cons d D')
    then have "is_heading d" using D by simp
    then have s6: "sections (step s5 d) = commit s5" by (simp add: step_heading)
    obtain ks where
      "map fst (commit (foldl step (step s5 d) D')) = map fst (sections (step s5 d)) @ ks"
      using final_prefix by blast
    then show ?thesis using run Cons s6 c5 by (simp add: sections_of_lines_def)
  qed
  then show ?thesis by simp
qed

section \<open>Lemmas on the patterns and on the table loop\<close>

declare finditer_from.simps [simp del]

lemma lang_PlusI: "ws \<noteq> [] \<Longrightarrow> set ws \<subseteq> lang a \<Longrightarrow> concat ws \<in> lang (Plus a)"
  by (simp del: concat.simps) blast

lemma lang_LazyStarI: "set ws \<subseteq> lang a \<Longrightarrow> concat ws \<in> lang (LazyStar a)"
  by (simp del: concat.simps) blast

lemma backtrack_sound:
  "s' \<in> set (backtrack n r s) \<Longrightarrow> \<exists>w. s = w @ s' \<and> w \<in> lang r"
proof (induction n r s arbitrary: s' rule: backtrack.induct)
  case (1 n s)
  then show ?case by (auto split: list.splits if_splits)
next
  case (2 n i s)
  then show ?case by (auto split: list.splits if_splits)
next
  case (3 n "is" s)
  then show ?case by (auto split: list.splits if_splits)
next
  case (4 n s)
  then show ?case by (auto split: if_splits)
next
  case (5 n a b s)
  from "5.prems" obtain x where x: "x \<in> set (backtrack n a s)" and s': "s' \<in> set (backtrack n b x)"
    by auto
  from "5.IH"(1) [OF x] obtain u where u: "s = u @ x" "u \<in> lang a" by blast
  from "5.IH"(2) [OF x s'] obtain v where v: "x = v @ s'" "v \<in> lang b" by blast
  have "s = (u @ v) @ s'" using u v by simp
  moreover have "u @ v \<in> lang (Seq a b)" using u v by auto
  ultimately show ?case by blast
next
  case (6 n a b s)
  from "6.prems" have "s' \<in> set (backtrack n a s) \<or> s' \<in> set (backtrack n b s)" by simp
  then show ?case using "6.IH" by (auto simp del: backtrack.simps)
next
  case (7 n a s)
  from "7.prems" have "s' \<in> set (backtrack n a s) \<or> s' = s" by auto
  then show ?case using "7.IH" by (auto simp del: backtrack.simps)
next
  case (8 n a s)
  from "8.prems" have "s' \<in> set (concat (map
      (\<lambda>x. (if length x < length s then backtrack n (Plus a) x else []) @ [x]) (backtrack n a s)))"
    unfolding backtrack.simps(8) [of n a s] .
  then obtain x where x: "x \<in> set (backtrack n a s)"
    and "s' \<in> set ((if length x < length s then backtrack n (Plus a) x else []) @ [x])"
    by (auto simp del: backtrack.simps)
  then have d: "s' = x \<or> (length x < length s \<and> s' \<in> set (backtrack n (Plus a) x))"
    by (cases "length x < length s") (auto simp del: backtrack.simps)
  from "8.IH"(1) [OF x] obtain u where u: "s = u @ x" "u \<in> lang a" by blast
  from d show ?case
  proof
    assume "s' = x"
    moreover have "u \<in> lang (Plus a)"
      using lang_PlusI [of "[u]" a] u(2) by simp
    ultimately show ?thesis using u(1) by blast
  next
    assume r: "length x < length s \<and> s' \<in> set (backtrack n (Plus a) x)"
    from "8.IH"(2) [OF x] r obtain v where v: "x = v @ s'" "v \<in> lang (Plus a)" by blast
    then obtain ws where ws: "v = concat ws" "ws \<noteq> []" "set ws \<subseteq> lang a" by auto
    have "u @ v \<in> lang (Plus a)"
      using lang_PlusI [of "u # ws" a] ws u by simp
    moreover have "s = (u @ v) @ s'" using u v by simp
    ultimately show ?thesis by blast
  qed
next
  case (9 n a s)
  from "9.prems" have "s' \<in> set (s # concat (map
      (\<lambda>x. if length x < length s then backtrack n (LazyStar a) x else []) (backtrack n a s)))"
    unfolding backtrack.simps(9) [of n a s] .
  then have "s' = s \<or> (\<exists>x\<in>set (backtrack n a s).
      s' \<in> set (if length x < length s then backtrack n (LazyStar a) x else []))"
    by (auto simp del: backtrack.simps)
  then have d: "s' = s \<or> (\<exists>x\<in>set (backtrack n a s). length x < length s
        \<and> s' \<in> set (backtrack n (LazyStar a) x))"
    by (metis empty_iff list.set(1))
  then show ?case
  proof
    assume "s' = s"
    moreover have "[] \<in> lang (LazyStar a)" using lang_LazyStarI [of "[]" a] by simp
    ultimately show ?thesis by force
  next
    assume "\<exists>x\<in>set (backtrack n a s). length x < length s \<and> s' \<in> set (backtrack n (LazyStar a) x)"
    then obtain x where x: "x \<in> set (backtrack n a s)" "length x < length s"
      "s' \<in> set (backtrack n (LazyStar a) x)" by blast
    from "9.IH"(1) [OF x(1)] obtain u where u: "s = u @ x" "u \<in> lang a" by blast
    from "9.IH"(2) [OF x] obtain v where v: "x = v @ s'" "v \<in> lang (LazyStar a)" by blast
    then obtain ws where ws: "v = concat ws" "set ws \<subseteq> lang a" by auto
    have "u @ v \<in> lang (LazyStar a)"
      using lang_LazyStarI [of "u # ws" a] ws u by simp
    moreover have "s = (u @ v) @ s'" using u v by simp
    ultimately show ?thesis by blast
  qed
qed

lemma backtrack_no_bol:
  "no_bol r \<Longrightarrow> backtrack n r s = backtrack n' r s"
proof (induction n r s rule: backtrack.induct)
  case (5 n a b s)
  then have a: "backtrack n a s = backtrack n' a s" by simp
  have m: "map (backtrack n b) (backtrack n a s) = map (backtrack n' b) (backtrack n a s)"
    by (rule map_cong) (use 5 in auto)
  show ?case
    unfolding backtrack.simps(5) [of n a b s] backtrack.simps(5) [of n' a b s] a [symmetric] m
    by (rule refl)
next
  case (6 n a b s)
  then show ?case by simp
next
  case (7 n a s)
  then show ?case by simp
next
  case (8 n a s)
  then have a: "backtrack n a s = backtrack n' a s" and nb: "no_bol (Plus a)" by simp_all
  have m: "map (\<lambda>s'. (if length s' < length s then backtrack n (Plus a) s' else []) @ [s']) (backtrack n a s)
      = map (\<lambda>s'. (if length s' < length s then backtrack n' (Plus a) s' else []) @ [s']) (backtrack n a s)"
    by (rule map_cong [OF refl]) (use "8.IH"(2) nb in \<open>simp del: backtrack.simps\<close>)
  show ?case
    unfolding backtrack.simps(8) [of n a s] backtrack.simps(8) [of n' a s] a [symmetric] m
    by (rule refl)
next
  case (9 n a s)
  then have a: "backtrack n a s = backtrack n' a s" and nb: "no_bol (LazyStar a)" by simp_all
  have m: "map (\<lambda>s'. if length s' < length s then backtrack n (LazyStar a) s' else []) (backtrack n a s)
      = map (\<lambda>s'. if length s' < length s then backtrack n' (LazyStar a) s' else []) (backtrack n a s)"
    by (rule map_cong [OF refl]) (use "9.IH"(2) nb in \<open>simp del: backtrack.simps\<close>)
  show ?case
    unfolding backtrack.simps(9) [of n a s] backtrack.simps(9) [of n' a s] a [symmetric] m
    by (rule refl)
qed simp_all

lemma finditer_from_no_bol:
  "no_bol r \<Longrightarrow> finditer_from n r s = finditer_from n' r s"
proof (induction n r s rule: finditer_from.induct)
  case (1 n r s)
  have b: "backtrack n' r s = backtrack n r s" using "1.prems" backtrack_no_bol by blast
  note L = finditer_from.simps [of n r s] and R = finditer_from.simps [of n' r s]
  show ?case
  proof (cases "backtrack n r s")
    case Nil
    show ?thesis
    proof (cases s)
      case Nil
      then show ?thesis using \<open>backtrack n r s = []\<close> b unfolding L R by simp
    next
      case (Cons c cs)
      then show ?thesis
        using "1.IH"(1) [OF \<open>backtrack n r s = []\<close> Cons "1.prems"] \<open>backtrack n r s = []\<close> b
        unfolding L R by simp
    qed
  next
    case (Cons s' alts)
    show ?thesis
    proof (cases "length s' < length s")
      case True
      then show ?thesis
        using "1.IH"(2) [OF Cons True "1.prems"] b Cons unfolding L R by simp
    next
      case False
      show ?thesis
      proof (cases s)
        case Nil
        then show ?thesis using \<open>backtrack n r s = s' # alts\<close> b False unfolding L R by simp
      next
        case (Cons c cs)
        then show ?thesis
          using "1.IH"(3) [OF \<open>backtrack n r s = s' # alts\<close> False Cons "1.prems"]
            \<open>backtrack n r s = s' # alts\<close> b False
          unfolding L R by simp
      qed
    qed
  qed
qed

lemma finditer_from_sound:
  "m \<in> set (finditer_from n r s) \<Longrightarrow> m \<in> lang r \<and> (\<exists>pre post. s = pre @ m @ post)"
proof (induction n r s rule: finditer_from.induct)
  case (1 n r s)
  show ?case
  proof (cases "backtrack n r s")
    case Nil
    show ?thesis
    proof (cases s)
      case Nil
      with \<open>backtrack n r s = []\<close> "1.prems" show ?thesis
        by (simp add: finditer_from.simps [of n r "[]"])
    next
      case (Cons c cs)
      with \<open>backtrack n r s = []\<close> "1.prems" have "m \<in> set (finditer_from n r cs)"
        by (simp add: finditer_from.simps [of n r "c # cs"])
      from "1.IH"(1) [OF \<open>backtrack n r s = []\<close> Cons this]
      obtain pre post where "m \<in> lang r" "cs = pre @ m @ post" by blast
      then have "s = (c # pre) @ m @ post" using Cons by simp
      with \<open>m \<in> lang r\<close> show ?thesis by blast
    qed
  next
    case (Cons s' alts)
    then have "s' \<in> set (backtrack n r s)" by simp
    then obtain w where w: "s = w @ s'" "w \<in> lang r" using backtrack_sound by blast
    show ?thesis
    proof (cases "length s' < length s")
      case True
      with Cons "1.prems" have "m = take (length s - length s') s \<or> m \<in> set (finditer_from n r s')"
        by (simp add: finditer_from.simps [of n r s])
      then show ?thesis
      proof
        assume "m = take (length s - length s') s"
        then have "m = w" using w by simp
        then have "s = [] @ m @ s'" using w by simp
        with \<open>m = w\<close> w show ?thesis by blast
      next
        assume "m \<in> set (finditer_from n r s')"
        from "1.IH"(2) [OF Cons True this]
        obtain pre post where "m \<in> lang r" "s' = pre @ m @ post" by blast
        then have "s = (w @ pre) @ m @ post" using w by simp
        with \<open>m \<in> lang r\<close> show ?thesis by blast
      qed
    next
      case False
      then have "w = []" using w by simp
      show ?thesis
      proof (cases s)
        case Nil
        with Cons False "1.prems" have "m = []" by (simp add: finditer_from.simps [of n r "[]"])
        then have "s = [] @ m @ s" by simp
        then show ?thesis using w \<open>w = []\<close> \<open>m = []\<close> by blast
      next
        case (Cons c cs)
        with \<open>backtrack n r s = s' # alts\<close> False "1.prems"
        have "m = [] \<or> m \<in> set (finditer_from n r cs)"
          by (simp add: finditer_from.simps [of n r "c # cs"])
        then show ?thesis
        proof
          assume "m = []"
          then have "s = [] @ m @ s" by simp
          then show ?thesis using w \<open>w = []\<close> \<open>m = []\<close> by blast
        next
          assume "m \<in> set (finditer_from n r cs)"
          from "1.IH"(3) [OF \<open>backtrack n r s = s' # alts\<close> False Cons this]
          obtain pre post where "m \<in> lang r" "cs = pre @ m @ post" by blast
          then have "s = (c # pre) @ m @ post" using Cons by simp
          with \<open>m \<in> lang r\<close> show ?thesis by blast
        qed
      qed
    qed
  qed
qed

lemma concat_singletons_notin:
  "set ws \<subseteq> {[c] | c. P c} \<Longrightarrow> \<forall>c\<in>set (concat ws). P c"
  by (induction ws) auto

lemma lang_row:
  assumes "w \<in> lang row_pattern"
  shows "\<exists>l b. w = l @ [b] \<and> pipe_line l \<and> is_break b"
proof -
  from assms obtain ws b where w: "w = CHR ''|'' # concat ws @ CHR ''|'' # [b]"
    and ws: "set ws \<subseteq> {[c] | c. c \<noteq> LF}" and b: "b = CR \<or> b = LF"
    by (auto simp: row_pattern_def)
  have "LF \<notin> set (concat ws)"
    using concat_singletons_notin [OF ws] by blast
  then have "pipe_line (CHR ''|'' # concat ws @ ''|'')"
    by (auto simp: pipe_line_def)
  moreover have "w = (CHR ''|'' # concat ws @ ''|'') @ [b]" using w by simp
  ultimately show ?thesis using b by (auto simp: is_break_def)
qed

lemma lang_table:
  assumes "w \<in> lang table_pattern"
  shows "table_block w"
proof -
  from assms obtain r0 sp b2 rows where w: "w = r0 @ sp @ b2 # rows"
    and r0: "r0 \<in> lang row_pattern"
    and sp: "sp \<in> lang (Plus (Class sep_class))"
    and b2: "b2 = CR \<or> b2 = LF"
    and rows: "rows \<in> lang (Plus row_pattern)"
    by (auto simp: table_pattern_def simp del: lang.simps(8))
  from lang_row [OF r0] obtain h b1 where h: "r0 = h @ [b1]" "pipe_line h" "is_break b1"
    by blast
  from sp obtain ws where ws: "sp = concat ws" "ws \<noteq> []"
    "set ws \<subseteq> {[c] | c. list_ex (\<lambda>i. item_ok i c) sep_class}"
    by auto
  have sep: "\<forall>c\<in>set sp. sep_char c"
    using concat_singletons_notin [OF ws(3)] ws(1)
    by (auto simp: sep_char_def sep_class_def)
  have "sp \<noteq> []"
  proof -
    obtain x xs where "ws = x # xs" using ws(2) by (cases ws) auto
    moreover then have "x \<noteq> []" using ws(3) by auto
    ultimately show ?thesis using ws(1) by simp
  qed
  from rows obtain rs where rs: "rows = concat rs" "rs \<noteq> []" "set rs \<subseteq> lang row_pattern"
    by auto
  have "\<forall>r\<in>set rs. \<exists>l b. r = l @ [b] \<and> pipe_line l \<and> is_break b"
    using rs(3) lang_row by blast
  moreover have "w = h @ b1 # sp @ b2 # concat rs" using w h rs by simp
  moreover have "is_break b2" using b2 by (simp add: is_break_def)
  ultimately have "w = h @ b1 # sp @ b2 # concat rs
        \<and> pipe_line h \<and> is_break b1
        \<and> sp \<noteq> [] \<and> (\<forall>c\<in>set sp. sep_char c) \<and> is_break b2
        \<and> rs \<noteq> [] \<and> (\<forall>r\<in>set rs. \<exists>l b. r = l @ [b] \<and> pipe_line l \<and> is_break b)"
    using h sep \<open>sp \<noteq> []\<close> rs(2) by blast
  then show ?thesis
    unfolding table_block_def by blast
qed

lemma finditer_table_block:
  assumes "m \<in> set (finditer table_pattern inp)"
  shows "table_block m \<and> (\<exists>pre post. inp = pre @ m @ post)"
  using finditer_from_sound [of m "length inp" table_pattern inp] assms lang_table
  by (auto simp: finditer_def)

lemma last_concat_rows:
  assumes "rs \<noteq> []" and "\<forall>r\<in>set rs. \<exists>l b. r = l @ [b] \<and> P b"
  shows "concat rs \<noteq> [] \<and> P (last (concat rs))"
  using assms
proof (induction rs rule: rev_induct)
  case Nil
  then show ?case by simp
next
  case (snoc r rs)
  then obtain l b where "r = l @ [b]" "P b" by auto
  then show ?case by simp
qed

lemma count_concat_rows:
  assumes "rs \<noteq> []" and "\<forall>r\<in>set rs. \<exists>l b. r = l @ [b] \<and> P b"
  shows "1 \<le> length (filter P (concat rs))"
proof -
  obtain r rs' where rs: "rs = r # rs'" using assms(1) by (cases rs) auto
  then obtain l b where "r = l @ [b]" "P b" using assms(2) by auto
  then show ?thesis using rs by simp
qed

lemma table_block_shape:
  assumes "table_block m"
  shows "m \<noteq> [] \<and> hd m = CHR ''|'' \<and> is_break (last m) \<and> 3 \<le> length (filter is_break m)"
proof -
  from assms obtain h b1 sp b2 rs where m: "m = h @ b1 # sp @ b2 # concat rs"
    and h: "pipe_line h" and b: "is_break b1" "is_break b2"
    and rs: "rs \<noteq> []" "\<forall>r\<in>set rs. \<exists>l b. r = l @ [b] \<and> pipe_line l \<and> is_break b"
    unfolding table_block_def by blast
  have rs': "\<forall>r\<in>set rs. \<exists>l b. r = l @ [b] \<and> is_break b" using rs(2) by blast
  define X where "X = concat rs"
  have l: "X \<noteq> [] \<and> is_break (last X)"
    unfolding X_def by (rule last_concat_rows [OF rs(1) rs'])
  have c: "1 \<le> length (filter is_break X)"
    unfolding X_def by (rule count_concat_rows [OF rs(1) rs'])
  have m': "m = h @ b1 # sp @ b2 # X" using m by (simp add: X_def)
  obtain mid where "h = CHR ''|'' # mid @ ''|''" using h by (auto simp: pipe_line_def)
  then have "hd m = CHR ''|''" "m \<noteq> []" using m' by simp_all
  moreover have "last m = last X" using m' l by simp
  moreover have "3 \<le> length (filter is_break m)" using m' b c by simp
  ultimately show ?thesis using l by simp
qed

lemma foldl_table_step:
  "foldl (table_step ctor) acc ms =
     (fst acc @ [df. Inr df \<leftarrow> map (parse_table ctor) ms],
      snd acc @ [e. Inl e \<leftarrow> map (parse_table ctor) ms])"
proof (induction ms arbitrary: acc)
  case Nil
  then show ?case by simp
next
  case (Cons m ms)
  have "table_step ctor acc m =
      (case parse_table ctor m of Inr df \<Rightarrow> (fst acc @ [df], snd acc)
       | Inl e \<Rightarrow> (fst acc, snd acc @ [e]))"
    by (simp add: table_step_def)
  then show ?case
    by (cases "parse_table ctor m") (simp_all add: Cons.IH)
qed

lemma extract_tables_with_eq:
  "extract_tables_with ctor text =
     ([df. Inr df \<leftarrow> map (parse_table ctor) (finditer table_pattern text)],
      [e. Inl e \<leftarrow> map (parse_table ctor) (finditer table_pattern text)])"
  by (simp add: extract_tables_with_def foldl_table_step)

lemma no_bol_table_pattern: "no_bol table_pattern"
  by (simp add: table_pattern_def row_pattern_def)

lemma backtrack_table_no_pipe:
  "c \<noteq> CHR ''|'' \<Longrightarrow> backtrack n table_pattern (c # s) = []"
  by (simp add: table_pattern_def row_pattern_def)

lemma finditer_from_skip:
  "CHR ''|'' \<notin> set pre \<Longrightarrow>
   finditer_from n table_pattern (pre @ s) = finditer_from n table_pattern s"
proof (induction pre)
  case Nil
  then show ?case by simp
next
  case (Cons c pre)
  then have "c \<noteq> CHR ''|''" by auto
  then have "backtrack n table_pattern (c # pre @ s) = []"
    by (rule backtrack_table_no_pipe)
  then have "finditer_from n table_pattern ((c # pre) @ s) = finditer_from n table_pattern (pre @ s)"
    by (simp add: finditer_from.simps [of n table_pattern "c # pre @ s"])
  then show ?case using Cons by simp
qed

lemma finditer_skip:
  assumes "CHR ''|'' \<notin> set pre"
  shows "finditer table_pattern (pre @ s) = finditer table_pattern s"
proof -
  have "finditer table_pattern (pre @ s) = finditer_from (length (pre @ s)) table_pattern s"
    unfolding finditer_def by (rule finditer_from_skip [OF assms])
  also have "\<dots> = finditer_from (length s) table_pattern s"
    by (rule finditer_from_no_bol [OF no_bol_table_pattern])
  finally show ?thesis by (simp add: finditer_def)
qed

lemma lazy_dot_Nil: "backtrack n (LazyStar Dot) [] = [[]]"
  by (simp add: backtrack.simps(9) [of n Dot "[]"] del: backtrack.simps(9))

lemma lazy_dot_LF: "backtrack n (LazyStar Dot) (LF # s) = [LF # s]"
  by (simp add: backtrack.simps(9) [of n Dot "LF # s"] del: backtrack.simps(9))

lemma lazy_dot_Cons:
  "c \<noteq> LF \<Longrightarrow> backtrack n (LazyStar Dot) (c # s) = (c # s) # backtrack n (LazyStar Dot) s"
  by (simp add: backtrack.simps(9) [of n Dot "c # s"] del: backtrack.simps(9))

lemma plus_class_Nil: "backtrack n (Plus (Class cs)) [] = []"
  by (simp add: backtrack.simps(8) [of n "Class cs" "[]"] del: backtrack.simps(8))

lemma plus_class_Cons:
  "backtrack n (Plus (Class cs)) (c # s) =
     (if list_ex (\<lambda>i. item_ok i c) cs then backtrack n (Plus (Class cs)) s @ [s] else [])"
  by (simp add: backtrack.simps(8) [of n "Class cs" "c # s"] del: backtrack.simps(8))

lemma plus_none: "backtrack n a s = [] \<Longrightarrow> backtrack n (Plus a) s = []"
  by (simp add: backtrack.simps(8) [of n a s] del: backtrack.simps(8))

lemma plus_one:
  "backtrack n a s = [s1] \<Longrightarrow> length s1 < length s \<Longrightarrow>
   backtrack n (Plus a) s = backtrack n (Plus a) s1 @ [s1]"
  by (simp add: backtrack.simps(8) [of n a s] del: backtrack.simps(8))

lemma row_no_pipe:
  "post = [] \<or> hd post \<noteq> CHR ''|'' \<Longrightarrow> backtrack n row_pattern post = []"
  by (cases post) (simp_all add: row_pattern_def del: backtrack.simps(8,9))

lemma split_on_hd: "c \<noteq> sep \<Longrightarrow> \<exists>w ws. split_on sep (c # cs) = (c # w) # ws"
  by (simp split: list.splits)

lemma parse_table_no_IndexError:
  assumes "table_block m"
  shows "parse_table ctor m \<noteq> Inl IndexError"
proof -
  from table_block_shape [OF assms] obtain cs where m: "m = CHR ''|'' # cs"
    by (cases m) auto
  obtain w ws where sp: "split_on LF m = (CHR ''|'' # w) # ws"
    using split_on_hd [of "CHR ''|''" LF cs] m by auto
  have "\<not> isspace (CHR ''|'')" by (simp add: isspace_def)
  then have "strip (CHR ''|'' # w) \<noteq> []" by (auto simp: strip_Nil_iff)
  then obtain l0 rest where
    "map strip (filter (\<lambda>line. strip line \<noteq> []) (split_on LF m)) = l0 # rest"
    using sp by simp
  then show ?thesis
    by (simp add: parse_table_def Let_def split: sum.splits)
qed

lemma filter_sublist_le: "length (filter P m) \<le> length (filter P (pre @ m @ post))"
  by simp

lemma few_breaks_no_match:
  assumes "length (filter is_break inp) < 3"
  shows "finditer table_pattern inp = []"
proof (rule ccontr)
  assume "finditer table_pattern inp \<noteq> []"
  then obtain m where "m \<in> set (finditer table_pattern inp)"
    by (cases "finditer table_pattern inp") auto
  then obtain pre post where "table_block m" "inp = pre @ m @ post"
    using finditer_table_block by blast
  then have "3 \<le> length (filter is_break inp)"
    using table_block_shape [of m] filter_sublist_le [of is_break m pre post] by simp
  with assms show False by simp
qed

lemma finditer_from_step:
  "backtrack n r s = s' # alts \<Longrightarrow> length s' < length s \<Longrightarrow>
   finditer_from n r s = take (length s - length s') s # finditer_from n r s'"
  by (simp add: finditer_from.simps [of n r s])

subsection \<open>A tail without a line break is never part of a match\<close>

lemma backtrack_suffix: "x \<in> set (backtrack n r s) \<Longrightarrow> \<exists>p. s = p @ x"
  using backtrack_sound by blast

lemma no_break_suffix:
  "\<forall>c\<in>set tail. \<not> is_break c \<Longrightarrow> tail = p @ e \<Longrightarrow> \<forall>c\<in>set e. \<not> is_break c"
  by auto

lemma brk_fail:
  "\<forall>c\<in>set e. \<not> is_break c \<Longrightarrow> backtrack n (Class [Lit CR, Lit LF]) e = []"
  by (cases e) (auto simp: is_break_def)

lemma pipe_brk_app:
  assumes "\<forall>c\<in>set tail. \<not> is_break c"
  shows "backtrack n (Seq (Sym (Lit (CHR ''|''))) (Class [Lit CR, Lit LF])) (y @ tail)
       = map (\<lambda>x. x @ tail) (backtrack n (Seq (Sym (Lit (CHR ''|''))) (Class [Lit CR, Lit LF])) y)"
proof (cases y)
  case Nil
  show ?thesis
  proof (cases tail)
    case Nil
    then show ?thesis using \<open>y = []\<close> by simp
  next
    case (Cons c t)
    then have "\<forall>c\<in>set t. \<not> is_break c" using assms by simp
    then have "backtrack n (Class [Lit CR, Lit LF]) t = []" by (rule brk_fail)
    then show ?thesis using \<open>y = []\<close> Cons by simp
  qed
next
  case (Cons c y')
  show ?thesis
  proof (cases y')
    case Nil
    have "backtrack n (Class [Lit CR, Lit LF]) tail = []" using assms by (rule brk_fail)
    then show ?thesis using Cons Nil by simp
  next
    case (Cons b y'')
    then show ?thesis using \<open>y = c # y'\<close> by simp
  qed
qed

lemma pipe_brk_fail:
  assumes "\<forall>c\<in>set e. \<not> is_break c"
  shows "backtrack n (Seq (Sym (Lit (CHR ''|''))) (Class [Lit CR, Lit LF])) e = []"
  using pipe_brk_app [OF assms, of n "[]"] by simp

lemma lazy_dot_app:
  assumes "\<forall>c\<in>set tail. \<not> is_break c"
  shows "\<exists>E. (\<forall>e\<in>set E. \<exists>p. tail = p @ e)
           \<and> backtrack n (LazyStar Dot) (s @ tail)
               = map (\<lambda>x. x @ tail) (backtrack n (LazyStar Dot) s) @ E"
proof (induction s)
  case Nil
  show ?case
  proof (cases tail)
    case Nil
    then show ?thesis by (simp add: lazy_dot_Nil del: backtrack.simps(9))
  next
    case (Cons c t)
    then have "c \<noteq> LF" using assms by (auto simp: is_break_def)
    then have e: "backtrack n (LazyStar Dot) (c # t) = (c # t) # backtrack n (LazyStar Dot) t"
      by (rule lazy_dot_Cons)
    have "\<forall>e\<in>set (backtrack n (LazyStar Dot) t). \<exists>p. tail = p @ e"
    proof
      fix e assume "e \<in> set (backtrack n (LazyStar Dot) t)"
      then obtain p where "t = p @ e" using backtrack_suffix by blast
      then have "tail = (c # p) @ e" using Cons by simp
      then show "\<exists>p. tail = p @ e" by blast
    qed
    then show ?thesis
      using e Cons by (simp add: lazy_dot_Nil del: backtrack.simps(9))
  qed
next
  case (Cons c s)
  then obtain E where E: "\<forall>e\<in>set E. \<exists>p. tail = p @ e"
    "backtrack n (LazyStar Dot) (s @ tail) = map (\<lambda>x. x @ tail) (backtrack n (LazyStar Dot) s) @ E"
    by blast
  show ?case
  proof (cases "c = LF")
    case True
    then have "backtrack n (LazyStar Dot) ((c # s) @ tail)
        = map (\<lambda>x. x @ tail) (backtrack n (LazyStar Dot) (c # s)) @ []"
      by (simp add: lazy_dot_LF del: backtrack.simps(9))
    then show ?thesis by (intro exI [of _ "[]"]) simp
  next
    case False
    then have "backtrack n (LazyStar Dot) ((c # s) @ tail)
        = map (\<lambda>x. x @ tail) (backtrack n (LazyStar Dot) (c # s)) @ E"
      using E(2) by (simp add: lazy_dot_Cons del: backtrack.simps(9))
    then show ?thesis using E(1) by blast
  qed
qed

lemma concat_map_app:
  assumes "\<And>x. x \<in> set L \<Longrightarrow> f (x @ tail) = map (\<lambda>y. y @ tail) (g x)"
  shows "concat (map f (map (\<lambda>x. x @ tail) L)) = map (\<lambda>y. y @ tail) (concat (map g L))"
  using assms by (induction L) simp_all

lemma concat_map_Nil: "(\<And>x. x \<in> set E \<Longrightarrow> f x = []) \<Longrightarrow> concat (map f E) = []"
  by (induction E) simp_all

lemma row_rest_app:
  assumes "\<forall>c\<in>set tail. \<not> is_break c"
  shows "backtrack n (Seq (LazyStar Dot) (Seq (Sym (Lit (CHR ''|''))) (Class [Lit CR, Lit LF]))) (s @ tail)
       = map (\<lambda>x. x @ tail)
           (backtrack n (Seq (LazyStar Dot) (Seq (Sym (Lit (CHR ''|''))) (Class [Lit CR, Lit LF]))) s)"
proof -
  let ?PB = "Seq (Sym (Lit (CHR ''|''))) (Class [Lit CR, Lit LF])"
  obtain E where E: "\<forall>e\<in>set E. \<exists>p. tail = p @ e"
    "backtrack n (LazyStar Dot) (s @ tail) = map (\<lambda>x. x @ tail) (backtrack n (LazyStar Dot) s) @ E"
    using lazy_dot_app [OF assms] by blast
  have 1: "concat (map (backtrack n ?PB) E) = []"
  proof (rule concat_map_Nil)
    fix e assume "e \<in> set E"
    then obtain p where "tail = p @ e" using E(1) by blast
    then have "\<forall>c\<in>set e. \<not> is_break c" using assms by auto
    then show "backtrack n ?PB e = []" by (rule pipe_brk_fail)
  qed
  have 2: "concat (map (backtrack n ?PB) (map (\<lambda>x. x @ tail) (backtrack n (LazyStar Dot) s)))
      = map (\<lambda>y. y @ tail) (concat (map (backtrack n ?PB) (backtrack n (LazyStar Dot) s)))"
    by (rule concat_map_app) (rule pipe_brk_app [OF assms])
  show ?thesis
    unfolding backtrack.simps(5) [of n "LazyStar Dot" ?PB] E(2) map_append concat_append 1 2
    by simp
qed

lemma row_rest_fail:
  assumes "\<forall>c\<in>set e. \<not> is_break c"
  shows "backtrack n (Seq (LazyStar Dot) (Seq (Sym (Lit (CHR ''|''))) (Class [Lit CR, Lit LF]))) e = []"
  using row_rest_app [OF assms, of n "[]"]
  by (simp add: lazy_dot_Nil del: backtrack.simps(9))

lemma seq_sym:
  "backtrack n (Seq (Sym i) r) s =
     (case s of [] \<Rightarrow> [] | c # cs \<Rightarrow> if item_ok i c then backtrack n r cs else [])"
  by (cases s) simp_all

lemma row_app:
  assumes "\<forall>c\<in>set tail. \<not> is_break c"
  shows "backtrack n row_pattern (s @ tail) = map (\<lambda>x. x @ tail) (backtrack n row_pattern s)"
proof (cases s)
  case Nil
  show ?thesis
  proof (cases tail)
    case Nil
    then show ?thesis using \<open>s = []\<close>
      by (simp add: row_pattern_def seq_sym del: backtrack.simps(5,9))
  next
    case (Cons c t)
    then have "\<forall>c\<in>set t. \<not> is_break c" using assms by simp
    from row_rest_fail [OF this, of n] show ?thesis
      using \<open>s = []\<close> Cons
      by (simp add: row_pattern_def seq_sym del: backtrack.simps(5,9))
  qed
next
  case (Cons c s')
  then show ?thesis
    using row_rest_app [OF assms, of n s']
    by (simp add: row_pattern_def seq_sym del: backtrack.simps(5,9))
qed

lemma row_shorter:
  assumes "x \<in> set (backtrack n row_pattern s)"
  shows "length x < length s"
proof -
  obtain w where w: "s = w @ x" "w \<in> lang row_pattern"
    using backtrack_sound [OF assms] by blast
  then obtain l b where "w = l @ [b]" using lang_row by blast
  then show ?thesis using w(1) by simp
qed

lemma rows_app:
  assumes "\<forall>c\<in>set tail. \<not> is_break c"
  shows "backtrack n (Plus row_pattern) (s @ tail)
       = map (\<lambda>x. x @ tail) (backtrack n (Plus row_pattern) s)"
proof (induction "length s" arbitrary: s rule: less_induct)
  case less
  let ?F = "\<lambda>u s'. (if length s' < length u then backtrack n (Plus row_pattern) s' else []) @ [s']"
  have "concat (map (?F (s @ tail)) (map (\<lambda>x. x @ tail) (backtrack n row_pattern s)))
      = map (\<lambda>y. y @ tail) (concat (map (?F s) (backtrack n row_pattern s)))"
  proof (rule concat_map_app)
    fix x assume "x \<in> set (backtrack n row_pattern s)"
    then have l: "length x < length s" by (rule row_shorter)
    then have "backtrack n (Plus row_pattern) (x @ tail)
        = map (\<lambda>y. y @ tail) (backtrack n (Plus row_pattern) x)"
      by (rule less)
    then show "?F (s @ tail) (x @ tail) = map (\<lambda>y. y @ tail) (?F s x)"
      using l by (simp del: backtrack.simps)
  qed
  then show ?case
    unfolding backtrack.simps(8) [of n row_pattern s] backtrack.simps(8) [of n row_pattern "s @ tail"]
      row_app [OF assms] .
qed

lemma brk_rows_app:
  assumes "\<forall>c\<in>set tail. \<not> is_break c"
  shows "backtrack n (Seq (Class [Lit CR, Lit LF]) (Plus row_pattern)) (s @ tail)
       = map (\<lambda>x. x @ tail) (backtrack n (Seq (Class [Lit CR, Lit LF]) (Plus row_pattern)) s)"
proof (cases s)
  case Nil
  have "backtrack n (Class [Lit CR, Lit LF]) tail = []" using assms by (rule brk_fail)
  then show ?thesis using Nil by (simp del: backtrack.simps(8))
next
  case (Cons c s')
  then show ?thesis
    using rows_app [OF assms, of n s'] by (simp del: backtrack.simps(8))
qed

lemma brk_rows_fail:
  assumes "\<forall>c\<in>set e. \<not> is_break c"
  shows "backtrack n (Seq (Class [Lit CR, Lit LF]) (Plus row_pattern)) e = []"
  using brk_rows_app [OF assms, of n "[]"] by (simp del: backtrack.simps(8))

lemma sep_run_app:
  "\<exists>E. (\<forall>e\<in>set E. \<exists>p. tail = p @ e)
       \<and> backtrack n (Plus (Class cs)) (s @ tail)
           = E @ map (\<lambda>x. x @ tail) (backtrack n (Plus (Class cs)) s)"
proof (induction s)
  case Nil
  have "\<forall>e\<in>set (backtrack n (Plus (Class cs)) tail). \<exists>p. tail = p @ e"
    using backtrack_suffix by blast
  then show ?case
    by (intro exI [of _ "backtrack n (Plus (Class cs)) tail"])
       (simp add: plus_class_Nil del: backtrack.simps(8))
next
  case (Cons c s)
  then obtain E where E: "\<forall>e\<in>set E. \<exists>p. tail = p @ e"
    "backtrack n (Plus (Class cs)) (s @ tail) = E @ map (\<lambda>x. x @ tail) (backtrack n (Plus (Class cs)) s)"
    by blast
  show ?case
  proof (cases "list_ex (\<lambda>i. item_ok i c) cs")
    case True
    then have "backtrack n (Plus (Class cs)) ((c # s) @ tail)
        = E @ map (\<lambda>x. x @ tail) (backtrack n (Plus (Class cs)) (c # s))"
      using E(2) by (simp add: plus_class_Cons del: backtrack.simps(8))
    then show ?thesis using E(1) by blast
  next
    case False
    then have "backtrack n (Plus (Class cs)) ((c # s) @ tail)
        = [] @ map (\<lambda>x. x @ tail) (backtrack n (Plus (Class cs)) (c # s))"
      by (simp add: plus_class_Cons del: backtrack.simps(8))
    then show ?thesis by (intro exI [of _ "[]"]) simp
  qed
qed

lemma sep_rows_app:
  assumes "\<forall>c\<in>set tail. \<not> is_break c"
  shows "backtrack n (Seq (Plus (Class cs)) (Seq (Class [Lit CR, Lit LF]) (Plus row_pattern))) (s @ tail)
       = map (\<lambda>x. x @ tail)
           (backtrack n (Seq (Plus (Class cs)) (Seq (Class [Lit CR, Lit LF]) (Plus row_pattern))) s)"
proof -
  let ?C = "Seq (Class [Lit CR, Lit LF]) (Plus row_pattern)"
  obtain E where E: "\<forall>e\<in>set E. \<exists>p. tail = p @ e"
    "backtrack n (Plus (Class cs)) (s @ tail) = E @ map (\<lambda>x. x @ tail) (backtrack n (Plus (Class cs)) s)"
    using sep_run_app by blast
  have 1: "concat (map (backtrack n ?C) E) = []"
  proof (rule concat_map_Nil)
    fix e assume "e \<in> set E"
    then obtain p where "tail = p @ e" using E(1) by blast
    then have "\<forall>c\<in>set e. \<not> is_break c" using assms by auto
    then show "backtrack n ?C e = []" by (rule brk_rows_fail)
  qed
  have 2: "concat (map (backtrack n ?C) (map (\<lambda>x. x @ tail) (backtrack n (Plus (Class cs)) s)))
      = map (\<lambda>y. y @ tail) (concat (map (backtrack n ?C) (backtrack n (Plus (Class cs)) s)))"
    by (rule concat_map_app) (rule brk_rows_app [OF assms])
  show ?thesis
    unfolding backtrack.simps(5) [of n "Plus (Class cs)" ?C] E(2) map_append concat_append 1 2
    by simp
qed

lemma table_app:
  assumes "\<forall>c\<in>set tail. \<not> is_break c"
  shows "backtrack n table_pattern (s @ tail) = map (\<lambda>x. x @ tail) (backtrack n table_pattern s)"
proof -
  let ?D = "Seq (Plus (Class sep_class)) (Seq (Class [Lit CR, Lit LF]) (Plus row_pattern))"
  have "concat (map (backtrack n ?D) (map (\<lambda>x. x @ tail) (backtrack n row_pattern s)))
      = map (\<lambda>y. y @ tail) (concat (map (backtrack n ?D) (backtrack n row_pattern s)))"
    by (rule concat_map_app) (rule sep_rows_app [OF assms])
  then show ?thesis
    unfolding table_pattern_def backtrack.simps(5) [of n row_pattern ?D] row_app [OF assms] .
qed

lemma table_Nil: "backtrack n table_pattern [] = []"
  by (simp add: table_pattern_def row_pattern_def)

lemma finditer_from_no_break:
  "\<forall>c\<in>set e. \<not> is_break c \<Longrightarrow> finditer_from n table_pattern e = []"
proof (induction e)
  case Nil
  then show ?case by (simp add: finditer_from.simps [of n table_pattern "[]"] table_Nil)
next
  case (Cons c e)
  have "backtrack n table_pattern ([] @ c # e) = map (\<lambda>x. x @ c # e) (backtrack n table_pattern [])"
    by (rule table_app [OF Cons.prems])
  then have "backtrack n table_pattern (c # e) = []" by (simp add: table_Nil)
  then show ?case
    using Cons by (simp add: finditer_from.simps [of n table_pattern "c # e"])
qed

lemma table_match_shorter:
  assumes "x \<in> set (backtrack n table_pattern s)"
  shows "length x < length s"
proof -
  obtain w where w: "s = w @ x" "w \<in> lang table_pattern"
    using backtrack_sound [OF assms] by blast
  then have "w \<noteq> []" using lang_table table_block_shape by blast
  then show ?thesis using w(1) by simp
qed

lemma finditer_from_tail:
  assumes "\<forall>c\<in>set tail. \<not> is_break c"
  shows "finditer_from n table_pattern (s @ tail) = finditer_from n table_pattern s"
proof (induction "length s" arbitrary: s rule: less_induct)
  case less
  have app: "backtrack n table_pattern (s @ tail) = map (\<lambda>x. x @ tail) (backtrack n table_pattern s)"
    by (rule table_app [OF assms])
  show ?case
  proof (cases "backtrack n table_pattern s")
    case Nil
    then have b: "backtrack n table_pattern (s @ tail) = []" using app by simp
    show ?thesis
    proof (cases s)
      case Nil
      then show ?thesis
        using finditer_from_no_break [OF assms, of n] table_Nil [of n]
        by (simp add: finditer_from.simps [of n table_pattern "[]"])
    next
      case (Cons c cs)
      then have "finditer_from n table_pattern (cs @ tail) = finditer_from n table_pattern cs"
        using less [of cs] by simp
      then show ?thesis
        using Cons b \<open>backtrack n table_pattern s = []\<close>
        by (simp add: finditer_from.simps [of n table_pattern "c # cs @ tail"]
                      finditer_from.simps [of n table_pattern "c # cs"])
    qed
  next
    case (Cons s' alts)
    then have l: "length s' < length s" using table_match_shorter [of s' n s] by simp
    have b: "backtrack n table_pattern (s @ tail) = (s' @ tail) # map (\<lambda>x. x @ tail) alts"
      using app Cons by simp
    have l': "length (s' @ tail) < length (s @ tail)" using l by simp
    have "finditer_from n table_pattern (s @ tail)
        = take (length (s @ tail) - length (s' @ tail)) (s @ tail) # finditer_from n table_pattern (s' @ tail)"
      by (rule finditer_from_step [OF b l'])
    moreover have "finditer_from n table_pattern s
        = take (length s - length s') s # finditer_from n table_pattern s'"
      by (rule finditer_from_step [OF Cons l])
    moreover have "finditer_from n table_pattern (s' @ tail) = finditer_from n table_pattern s'"
      using less [OF l] .
    moreover have "take (length (s @ tail) - length (s' @ tail)) (s @ tail) = take (length s - length s') s"
      using l by simp
    ultimately show ?thesis by simp
  qed
qed

lemma finditer_tail:
  assumes "\<forall>c\<in>set tail. \<not> is_break c"
  shows "finditer table_pattern (body @ tail) = finditer table_pattern body"
proof -
  have "finditer table_pattern (body @ tail) = finditer_from (length (body @ tail)) table_pattern body"
    unfolding finditer_def by (rule finditer_from_tail [OF assms])
  also have "\<dots> = finditer_from (length body) table_pattern body"
    by (rule finditer_from_no_bol [OF no_bol_table_pattern])
  finally show ?thesis by (simp add: finditer_def)
qed

subsection \<open>A block with any cells\<close>

lemma seq_class:
  "backtrack n (Seq (Class cs) r) s =
     (case s of [] \<Rightarrow> [] | c # t \<Rightarrow> if list_ex (\<lambda>i. item_ok i c) cs then backtrack n r t else [])"
  by (cases s) simp_all

lemma sep_class_ok: "list_ex (\<lambda>i. item_ok i c) sep_class \<longleftrightarrow> sep_char c"
  by (auto simp: sep_class_def sep_char_def)

lemma break_is_sep: "is_break c \<Longrightarrow> sep_char c"
  by (auto simp: is_break_def sep_char_def isspace_def)

lemma brk_ok: "list_ex (\<lambda>i. item_ok i c) [Lit CR, Lit LF] \<longleftrightarrow> is_break c"
  by (auto simp: is_break_def)

text \<open>The part of a row after its first pipe, on a line without a line break in it.\<close>

lemma row_rest_line:
  assumes "CR \<notin> set mid" and "LF \<notin> set mid"
  shows "backtrack n (Seq (LazyStar Dot) (Seq (Sym (Lit (CHR ''|''))) (Class [Lit CR, Lit LF])))
           (mid @ CHR ''|'' # LF # rest) = [rest]"
  using assms
proof (induction mid)
  case Nil
  show ?case
    by (simp add: lazy_dot_Cons lazy_dot_LF del: backtrack.simps(9))
next
  case (Cons c mid)
  let ?PB = "Seq (Sym (Lit (CHR ''|''))) (Class [Lit CR, Lit LF])"
  have c: "c \<noteq> LF" "c \<noteq> CR" using Cons.prems by auto
  have ih: "concat (map (backtrack n ?PB) (backtrack n (LazyStar Dot) (mid @ CHR ''|'' # LF # rest)))
      = [rest]"
    using Cons by (simp del: backtrack.simps(9))
  have nx: "backtrack n (Class [Lit CR, Lit LF]) (mid @ CHR ''|'' # LF # rest) = []"
    using Cons.prems by (cases mid) auto
  have "backtrack n ?PB (c # mid @ CHR ''|'' # LF # rest) = []"
    using nx by (simp add: seq_sym del: backtrack.simps(5))
  then show ?case
    using ih c by (simp add: lazy_dot_Cons del: backtrack.simps(9))
qed

lemma row_line:
  assumes "CR \<notin> set mid" and "LF \<notin> set mid"
  shows "backtrack n row_pattern (CHR ''|'' # mid @ CHR ''|'' # LF # rest) = [rest]"
  using row_rest_line [OF assms, of n rest]
  by (simp add: row_pattern_def seq_sym del: backtrack.simps(5,9))

lemma rows_line:
  assumes "CR \<notin> set mid" and "LF \<notin> set mid" and "post = [] \<or> hd post \<noteq> CHR ''|''"
  shows "backtrack n (Plus row_pattern) (CHR ''|'' # mid @ CHR ''|'' # LF # post) = [post]"
proof -
  have "backtrack n (Plus row_pattern) (CHR ''|'' # mid @ CHR ''|'' # LF # post)
          = backtrack n (Plus row_pattern) post @ [post]"
    by (rule plus_one [OF row_line [OF assms(1,2)]]) simp
  moreover have "backtrack n (Plus row_pattern) post = []"
    by (rule plus_none [OF row_no_pipe [OF assms(3)]])
  ultimately show ?thesis by simp
qed

text \<open>The separator run and what follows it, one character at a time.\<close>

lemma sep_rows_Nil:
  "backtrack n (Seq (Plus (Class cs)) r) [] = []"
  by (simp add: plus_class_Nil del: backtrack.simps(8))

lemma sep_rows_Cons:
  "backtrack n (Seq (Plus (Class cs)) r) (c # s) =
     (if list_ex (\<lambda>i. item_ok i c) cs
      then backtrack n (Seq (Plus (Class cs)) r) s @ backtrack n r s else [])"
  by (simp add: plus_class_Cons del: backtrack.simps(8))

lemma brk_rows_no_break:
  "\<not> is_break c \<Longrightarrow> backtrack n (Seq (Class [Lit CR, Lit LF]) r) (c # s) = []"
  by (simp add: seq_class is_break_def del: backtrack.simps(5))

lemma sep_rows_skip:
  assumes "w \<noteq> []" and "\<forall>c\<in>set w. \<not> is_break c"
  shows "backtrack n (Seq (Plus (Class sep_class)) (Seq (Class [Lit CR, Lit LF]) r)) (w @ z)
       = (if \<forall>c\<in>set w. sep_char c
          then backtrack n (Seq (Plus (Class sep_class)) (Seq (Class [Lit CR, Lit LF]) r)) z
               @ backtrack n (Seq (Class [Lit CR, Lit LF]) r) z
          else [])"
  using assms
proof (induction w rule: list_nonempty_induct)
  case (single c)
  then show ?case
    by (simp add: sep_rows_Cons sep_class_ok del: backtrack.simps(5))
next
  case (cons c w)
  obtain d w' where w: "w = d # w'" using cons.hyps by (cases w) auto
  then have "\<not> is_break d" using cons.prems by simp
  then have "backtrack n (Seq (Class [Lit CR, Lit LF]) r) (w @ z) = []"
    using w brk_rows_no_break [of d n r "w' @ z"] by simp
  moreover have "backtrack n (Seq (Plus (Class sep_class)) (Seq (Class [Lit CR, Lit LF]) r)) (w @ z)
       = (if \<forall>c\<in>set w. sep_char c
          then backtrack n (Seq (Plus (Class sep_class)) (Seq (Class [Lit CR, Lit LF]) r)) z
               @ backtrack n (Seq (Class [Lit CR, Lit LF]) r) z
          else [])"
    using cons by simp
  ultimately show ?case
    by (simp add: sep_rows_Cons sep_class_ok del: backtrack.simps(5))
qed

lemma sep_rows_stop:
  assumes "post = [] \<or> \<not> sep_char (hd post)"
  shows "backtrack n (Seq (Plus (Class sep_class)) (Seq (Class [Lit CR, Lit LF]) r)) post = []
       \<and> backtrack n (Seq (Class [Lit CR, Lit LF]) r) post = []"
proof (cases post)
  case Nil
  then show ?thesis by (simp add: sep_rows_Nil seq_class del: backtrack.simps(5))
next
  case (Cons c t)
  then have "\<not> sep_char c" using assms by simp
  moreover then have "\<not> is_break c" using break_is_sep by blast
  ultimately show ?thesis
    using Cons by (simp add: sep_rows_Cons sep_class_ok brk_rows_no_break del: backtrack.simps(5))
qed

lemma cells_block_match:
  assumes cells: "\<forall>c\<in>set (c1 @ c2 @ a @ b). c \<noteq> CHR ''|'' \<and> c \<noteq> CR \<and> c \<noteq> LF"
    and post: "post = [] \<or> hd post \<noteq> CHR ''|''"
    and ctx: "(\<exists>c\<in>set (a @ b). \<not> sep_char c) \<or> post = [] \<or> \<not> sep_char (hd post)"
  shows "backtrack n table_pattern
           (CHR ''|'' # c1 @ CHR ''|'' # c2 @ CHR ''|'' # LF # ''|-|-|'' @ LF #
            CHR ''|'' # a @ CHR ''|'' # b @ CHR ''|'' # LF # post) = [post]"
proof -
  let ?C = "Seq (Class [Lit CR, Lit LF]) (Plus row_pattern)"
  let ?G = "Seq (Plus (Class sep_class)) ?C"
  let ?R = "CHR ''|'' # a @ CHR ''|'' # b @ ''|''"
  let ?T = "LF # ?R @ LF # post"
  have hm: "CR \<notin> set (c1 @ CHR ''|'' # c2)" "LF \<notin> set (c1 @ CHR ''|'' # c2)"
    using cells by auto
  have rm: "CR \<notin> set (a @ CHR ''|'' # b)" "LF \<notin> set (a @ CHR ''|'' # b)"
    using cells by auto
  have rows: "backtrack n (Plus row_pattern) (?R @ LF # post) = [post]"
    using rows_line [OF rm post, of n] by (simp del: backtrack.simps)
  have cT: "backtrack n ?C ?T = [post]"
    using rows by (simp add: seq_class del: backtrack.simps(5,8))
  have Rb: "?R \<noteq> []" "\<forall>c\<in>set ?R. \<not> is_break c"
    using cells by (auto simp: is_break_def)
  have gR: "backtrack n ?G (?R @ LF # post) = []"
  proof (cases "\<forall>c\<in>set ?R. sep_char c")
    case False
    then show ?thesis
      unfolding sep_rows_skip [OF Rb, of n "Plus row_pattern" "LF # post"] by (simp only: if_False)
  next
    case True
    then have "\<not> (\<exists>c\<in>set (a @ b). \<not> sep_char c)" by auto
    then have st: "post = [] \<or> \<not> sep_char (hd post)" using ctx by blast
    have 1: "backtrack n ?G post = []" "backtrack n ?C post = []"
      using sep_rows_stop [OF st, of n "Plus row_pattern"] by (simp_all del: backtrack.simps)
    have "backtrack n (Plus row_pattern) post = []"
      by (rule plus_none [OF row_no_pipe [OF post]])
    then have 2: "backtrack n ?C (LF # post) = []"
      by (simp add: seq_class del: backtrack.simps(5,8))
    have "sep_char LF" by (simp add: sep_char_def isspace_def)
    then have 3: "backtrack n ?G (LF # post) = []"
      using 1 by (simp add: sep_rows_Cons sep_class_ok del: backtrack.simps(5,8))
    show ?thesis
      unfolding sep_rows_skip [OF Rb, of n "Plus row_pattern" "LF # post"]
      using 2 3 by (simp only: append_Nil if_cancel)
  qed
  have "\<not> is_break (CHR ''|'')" by (simp add: is_break_def)
  then have cR: "backtrack n ?C (?R @ LF # post) = []"
    using brk_rows_no_break [of "CHR ''|''" n "Plus row_pattern"] by (simp del: backtrack.simps)
  have "sep_char LF" by (simp add: sep_char_def isspace_def)
  then have gT: "backtrack n ?G ?T = []"
    using gR cR by (simp add: sep_rows_Cons sep_class_ok del: backtrack.simps(5,8))
  have S: "''|-|-|'' \<noteq> []" "\<forall>c\<in>set ''|-|-|''. \<not> is_break c" "\<forall>c\<in>set ''|-|-|''. sep_char c"
    by (simp_all add: is_break_def sep_char_def)
  have gS: "backtrack n ?G (''|-|-|'' @ ?T) = [post]"
    using sep_rows_skip [OF S(1,2), of n "Plus row_pattern" ?T] S(3) gT cT by (simp del: backtrack.simps)
  have h: "backtrack n row_pattern
      (CHR ''|'' # (c1 @ CHR ''|'' # c2) @ CHR ''|'' # LF # ''|-|-|'' @ ?T) = [''|-|-|'' @ ?T]"
    by (rule row_line [OF hm])
  have "backtrack n table_pattern
      (CHR ''|'' # (c1 @ CHR ''|'' # c2) @ CHR ''|'' # LF # ''|-|-|'' @ ?T) = [post]"
    unfolding table_pattern_def
      backtrack.simps(5) [of n row_pattern ?G] h
    using gS by (simp del: backtrack.simps)
  then show ?thesis by (simp del: backtrack.simps)
qed

lemma take_match: "take (length (xs @ ys) - length ys) (xs @ ys) = xs"
  by simp

lemma cells_block_finditer:
  assumes pre: "CHR ''|'' \<notin> set pre"
    and cells: "\<forall>c\<in>set (c1 @ c2 @ a @ b). c \<noteq> CHR ''|'' \<and> c \<noteq> CR \<and> c \<noteq> LF"
    and post: "post = [] \<or> hd post \<noteq> CHR ''|''"
    and ctx: "(\<exists>c\<in>set (a @ b). \<not> sep_char c) \<or> post = [] \<or> \<not> sep_char (hd post)"
  shows "finditer table_pattern
           (pre @ CHR ''|'' # c1 @ CHR ''|'' # c2 @ CHR ''|'' # LF # ''|-|-|'' @ LF #
            CHR ''|'' # a @ CHR ''|'' # b @ CHR ''|'' # LF # post)
       = (CHR ''|'' # c1 @ CHR ''|'' # c2 @ CHR ''|'' # LF # ''|-|-|'' @ LF #
            CHR ''|'' # a @ CHR ''|'' # b @ CHR ''|'' # [LF]) # finditer table_pattern post"
proof -
  define B where "B = CHR ''|'' # c1 @ CHR ''|'' # c2 @ CHR ''|'' # LF # ''|-|-|'' @ LF #
            CHR ''|'' # a @ CHR ''|'' # b @ CHR ''|'' # [LF]"
  have Bp: "B @ post = CHR ''|'' # c1 @ CHR ''|'' # c2 @ CHR ''|'' # LF # ''|-|-|'' @ LF #
            CHR ''|'' # a @ CHR ''|'' # b @ CHR ''|'' # LF # post"
    by (simp add: B_def)
  let ?n = "length (B @ post)"
  have bt: "backtrack ?n table_pattern (B @ post) = post # []"
    unfolding Bp by (rule cells_block_match [OF cells post ctx])
  have l: "length post < length (B @ post)" by (simp add: B_def)
  have "finditer table_pattern (pre @ B @ post) = finditer table_pattern (B @ post)"
    by (rule finditer_skip [OF pre])
  also have "\<dots> = finditer_from ?n table_pattern (B @ post)"
    by (simp only: finditer_def)
  also have "\<dots> = take (length (B @ post) - length post) (B @ post) # finditer_from ?n table_pattern post"
    by (rule finditer_from_step [OF bt l])
  also have "take (length (B @ post) - length post) (B @ post) = B"
    by (rule take_match)
  also have "finditer_from ?n table_pattern post = finditer table_pattern post"
    unfolding finditer_def by (rule finditer_from_no_bol [OF no_bol_table_pattern])
  finally have "finditer table_pattern (pre @ B @ post) = B # finditer table_pattern post" .
  then show ?thesis by (simp add: B_def)
qed

text \<open>What the body of the \<open>try\<close> makes of such a block.\<close>

lemma strip_pipes: "strip (CHR ''|'' # mid @ ''|'') = CHR ''|'' # mid @ ''|''"
proof -
  have 1: "\<not> isspace (CHR ''|'')" by (simp add: isspace_def)
  then have "dropWhile isspace (rev (CHR ''|'' # mid @ ''|'')) = rev (CHR ''|'' # mid @ ''|'')"
    by simp
  then show ?thesis using 1 by (simp add: strip_def)
qed

lemma split_pipes:
  assumes "CHR ''|'' \<notin> set x" and "CHR ''|'' \<notin> set y"
  shows "split_on (CHR ''|'') (CHR ''|'' # x @ CHR ''|'' # y @ ''|'') = [[], x, y, []]"
proof -
  have "split_on (CHR ''|'') (y @ CHR ''|'' # []) = [y, []]"
    using split_on_append [OF assms(2), of "[]"] by simp
  then have "split_on (CHR ''|'') (x @ CHR ''|'' # y @ ''|'') = [x, y, []]"
    using split_on_append [OF assms(1), of "y @ ''|''"] by simp
  then show ?thesis by simp
qed

lemma cells_pipes:
  assumes "CHR ''|'' \<notin> set x" and "CHR ''|'' \<notin> set y"
  shows "cells (CHR ''|'' # x @ CHR ''|'' # y @ ''|'') = [strip x, strip y]"
  unfolding cells_def split_pipes [OF assms] by simp

lemma cells_block_parse:
  assumes cells: "\<forall>c\<in>set (c1 @ c2 @ a @ b). c \<noteq> CHR ''|'' \<and> c \<noteq> CR \<and> c \<noteq> LF"
  shows "parse_table ctor
           (CHR ''|'' # c1 @ CHR ''|'' # c2 @ CHR ''|'' # LF # ''|-|-|'' @ LF #
            CHR ''|'' # a @ CHR ''|'' # b @ CHR ''|'' # [LF])
       = (case ctor [[strip a, strip b]] [strip c1, strip c2] of
            Inl e \<Rightarrow> Inl (Raised e) | Inr df \<Rightarrow> Inr df)"
proof -
  let ?H = "CHR ''|'' # (c1 @ CHR ''|'' # c2) @ ''|''"
  let ?R = "CHR ''|'' # (a @ CHR ''|'' # b) @ ''|''"
  have nl: "LF \<notin> set ?H" "LF \<notin> set ''|-|-|''" "LF \<notin> set ?R"
    using cells by auto
  have "split_on LF (?H @ LF # ''|-|-|'' @ LF # ?R @ LF # []) = [?H, ''|-|-|'', ?R, []]"
    using split_on_append [OF nl(1), of "''|-|-|'' @ LF # ?R @ LF # []"]
      split_on_append [OF nl(2), of "?R @ LF # []"]
      split_on_append [OF nl(3), of "[]"]
    by simp
  then have sp: "split_on LF
           (CHR ''|'' # c1 @ CHR ''|'' # c2 @ CHR ''|'' # LF # ''|-|-|'' @ LF #
            CHR ''|'' # a @ CHR ''|'' # b @ CHR ''|'' # [LF]) = [?H, ''|-|-|'', ?R, []]"
    by simp
  have st: "strip ?H = ?H" "strip ?R = ?R" "strip ''|-|-|'' = ''|-|-|''" "strip [] = []"
    using strip_pipes [of "c1 @ CHR ''|'' # c2"] strip_pipes [of "a @ CHR ''|'' # b"]
      strip_pipes [of "''-|-''"]
    by (simp_all add: strip_def)
  have np: "CHR ''|'' \<notin> set c1" "CHR ''|'' \<notin> set c2" "CHR ''|'' \<notin> set a" "CHR ''|'' \<notin> set b"
    using cells by auto
  have ce: "cells ?H = [strip c1, strip c2]" "cells ?R = [strip a, strip b]"
    using cells_pipes [OF np(1,2)] cells_pipes [OF np(3,4)] by simp_all
  show ?thesis
    unfolding parse_table_def sp
    using st ce by (simp add: Let_def)
qed

lemma valid_cells_set:
  assumes "valid_cell c1" and "valid_cell c2" and "valid_cell a" and "valid_cell b"
  shows "\<forall>c\<in>set (c1 @ c2 @ a @ b). c \<noteq> CHR ''|'' \<and> c \<noteq> CR \<and> c \<noteq> LF"
  using assms unfolding valid_cell_def set_append ball_Un by (intro conjI)

lemma valid_block_finditer:
  assumes pre: "CHR ''|'' \<notin> set pre"
    and v: "valid_cell c1" "valid_cell c2" "valid_cell a" "valid_cell b"
    and post: "post = [] \<or> hd post \<noteq> CHR ''|''"
    and ctx: "(\<exists>c\<in>set (a @ b). \<not> sep_char c) \<or> post = [] \<or> \<not> sep_char (hd post)"
  shows "finditer table_pattern (pre @ cells_block c1 c2 a b @ post)
        = cells_block c1 c2 a b # finditer table_pattern post"
proof -
  have "finditer table_pattern
         (pre @ CHR ''|'' # c1 @ CHR ''|'' # c2 @ CHR ''|'' # LF # ''|-|-|'' @ LF #
          CHR ''|'' # a @ CHR ''|'' # b @ CHR ''|'' # LF # post)
     = (CHR ''|'' # c1 @ CHR ''|'' # c2 @ CHR ''|'' # LF # ''|-|-|'' @ LF #
          CHR ''|'' # a @ CHR ''|'' # b @ CHR ''|'' # [LF]) # finditer table_pattern post"
    by (rule cells_block_finditer [OF pre valid_cells_set [OF v] post ctx])
  then show ?thesis by (simp add: cells_block_def)
qed

lemma valid_block_parse:
  assumes v: "valid_cell c1" "valid_cell c2" "valid_cell a" "valid_cell b"
  shows "parse_table ctor (cells_block c1 c2 a b)
        = (case ctor [[strip a, strip b]] [strip c1, strip c2] of
             Inl e \<Rightarrow> Inl (Raised e) | Inr df \<Rightarrow> Inr df)"
  unfolding cells_block_def by (rule cells_block_parse [OF valid_cells_set [OF v]])

section \<open>Claims on extract_sections\<close>

text \<open>
  C1, as the code has it. The title is the heading line with every leading and trailing
  \<open>*\<close>, \<open>#\<close>, space and line feed removed; the digits and the dot of a numbered heading
  stay. So the input of the claim gives the keys \<open>1. Intro\<close> and \<open>2. Details\<close>, in that
  order. Every key of the result is such a title of a heading line of the input, and a
  heading line followed by one body line gives the one entry of its title and the
  trimmed body, when neither is empty.
\<close>

theorem C1_title_keeps_numbering:
  "extract_sections (''1. Intro'' @ LF # ''Hello world'' @ LF # LF # ''2. Details'' @ LF # ''More text'' @ [LF])
     = [(''1. Intro'', ''Hello world''), (''2. Details'', ''More text'')]
   \<and> (\<forall>text k v. (k, v) \<in> set (extract_sections text) \<longrightarrow>
         (\<exists>line\<in>set (split_on LF text). is_heading line \<and> k = strip_chars (''*# '' @ [LF]) line))
   \<and> (\<forall>h b. is_heading h \<and> \<not> is_heading b \<and> LF \<notin> set h \<and> LF \<notin> set b
              \<and> strip_chars (''*# '' @ [LF]) h \<noteq> [] \<and> strip b \<noteq> [] \<longrightarrow>
         extract_sections (h @ LF # b) = [(strip_chars (''*# '' @ [LF]) h, strip b)])"
proof (intro conjI allI impI)
  show "extract_sections (''1. Intro'' @ LF # ''Hello world'' @ LF # LF # ''2. Details'' @ LF # ''More text'' @ [LF])
     = [(''1. Intro'', ''Hello world''), (''2. Details'', ''More text'')]"
    by code_simp
next
  fix inp k v
  assume "(k, v) \<in> set (extract_sections inp)"
  then show "\<exists>line\<in>set (split_on LF inp). is_heading line \<and> k = strip_chars (''*# '' @ [LF]) line"
    using key_is_title [of k v "split_on LF inp"] by (simp add: extract_sections_def title_def)
next
  fix h b
  assume a: "is_heading h \<and> \<not> is_heading b \<and> LF \<notin> set h \<and> LF \<notin> set b
              \<and> strip_chars (''*# '' @ [LF]) h \<noteq> [] \<and> strip b \<noteq> []"
  then have "split_on LF (h @ LF # b) = [h, b]"
    by (simp add: split_on_append split_on_single)
  moreover have "sections_of_lines (h # [b]) = [(title h, strip (join_nl [b]))]"
    by (rule single_section) (use a in \<open>simp_all add: title_def\<close>)
  ultimately show "extract_sections (h @ LF # b) = [(strip_chars (''*# '' @ [LF]) h, strip b)]"
    by (simp add: extract_sections_def title_def)
qed

theorem C1_title_keeps_numbering_witness:
  "is_heading ''3. Plan'' \<and> strip_chars (''*# '' @ [LF]) ''3. Plan'' = ''3. Plan''
   \<and> extract_sections (''3. Plan'' @ LF # '' run '') = [(''3. Plan'', ''run'')]
   \<and> (''2. Details'', ''More text'') \<in> set (extract_sections
        (''1. Intro'' @ LF # ''Hello world'' @ LF # LF # ''2. Details'' @ LF # ''More text'' @ [LF]))
   \<and> ''2. Details'' \<in> set (split_on LF
        (''1. Intro'' @ LF # ''Hello world'' @ LF # LF # ''2. Details'' @ LF # ''More text'' @ [LF]))"
proof -
  have h: "is_heading ''3. Plan'' \<and> \<not> is_heading '' run '' \<and> LF \<notin> set ''3. Plan'' \<and> LF \<notin> set '' run ''
      \<and> strip_chars (''*# '' @ [LF]) ''3. Plan'' \<noteq> [] \<and> strip '' run '' \<noteq> []"
    by code_simp
  have e: "strip_chars (''*# '' @ [LF]) ''3. Plan'' = ''3. Plan''" "strip '' run '' = ''run''"
    by code_simp+
  have m: "(''2. Details'', ''More text'') \<in> set (extract_sections
        (''1. Intro'' @ LF # ''Hello world'' @ LF # LF # ''2. Details'' @ LF # ''More text'' @ [LF]))"
    using C1_title_keeps_numbering by simp
  have s: "''2. Details'' \<in> set (split_on LF
        (''1. Intro'' @ LF # ''Hello world'' @ LF # LF # ''2. Details'' @ LF # ''More text'' @ [LF]))"
    by code_simp
  from C1_title_keeps_numbering have
    "extract_sections (''3. Plan'' @ LF # '' run '') = [(strip_chars (''*# '' @ [LF]) ''3. Plan'', strip '' run '')]"
    using h by blast
  then show ?thesis using h e m s by simp
qed

theorem C1_counterexample:
  "extract_sections (''1. Intro'' @ LF # ''Hello world'' @ LF # LF # ''2. Details'' @ LF # ''More text'' @ [LF])
     \<noteq> [(''Intro'', ''Hello world''), (''Details'', ''More text'')]"
  by code_simp

text \<open>
  C2, as the code has it. Two heading lines \<open>h1\<close> and \<open>h2\<close> carry the same title \<open>t\<close>,
  which is not empty; \<open>B1\<close> and \<open>B2\<close> are the lines up to the next heading (or the end),
  each with a body that is not empty once trimmed; no heading before \<open>h1\<close> and none after
  \<open>B2\<close> has the title \<open>t\<close>. Then \<open>t\<close> is a key exactly once, its value is the trimmed
  body of \<open>B2\<close>, and the keys before it are the keys committed from the lines before
  \<open>h1\<close>: it stands where the first occurrence was committed.
\<close>

theorem C2_later_body_first_position:
  assumes "split_on LF text = A @ h1 # B1 @ C @ h2 # B2 @ D"
    and "is_heading h1" and "is_heading h2" and "title h1 = t" and "title h2 = t" and "t \<noteq> []"
    and "\<forall>l\<in>set B1. \<not> is_heading l" and "strip (join_nl B1) \<noteq> []"
    and "C = [] \<or> is_heading (hd C)"
    and "\<forall>l\<in>set B2. \<not> is_heading l" and "strip (join_nl B2) \<noteq> []"
    and "D = [] \<or> is_heading (hd D)"
    and "\<forall>l\<in>set A. is_heading l \<longrightarrow> title l \<noteq> t"
    and "\<forall>l\<in>set D. is_heading l \<longrightarrow> title l \<noteq> t"
  shows "count_list (map fst (extract_sections text)) t = 1
       \<and> map_of (extract_sections text) t = Some (strip (join_nl B2))
       \<and> takeWhile (\<lambda>k. k \<noteq> t) (map fst (extract_sections text)) = map fst (sections_of_lines A)"
proof -
  let ?X = "C @ h2 # B2 @ D"
  have X: "?X = [] \<or> is_heading (hd ?X)"
    using assms(3,9) by (cases C) auto
  obtain ks where
    "map fst (sections_of_lines (A @ h1 # B1 @ ?X)) = map fst (sections_of_lines A) @ t # ks"
    using first_position [OF assms(2,4,6,7,8) X assms(13)] by blast
  then have keys: "count_list (map fst (sections_of_lines (A @ h1 # B1 @ ?X))) t = 1
      \<and> takeWhile (\<lambda>k. k \<noteq> t) (map fst (sections_of_lines (A @ h1 # B1 @ ?X)))
          = map fst (sections_of_lines A)"
    by (rule key_once)
  have "map_of (commit (foldl step (foldl step init (A @ h1 # B1 @ C)) (h2 # B2 @ D))) t
          = Some (strip (join_nl B2))"
    by (rule last_value [OF assms(3,5,6,10,11,12,14)])
  then have val: "map_of (sections_of_lines (A @ h1 # B1 @ ?X)) t = Some (strip (join_nl B2))"
    by (simp add: sections_of_lines_def)
  show ?thesis
    using keys val assms(1) by (simp add: extract_sections_def)
qed

theorem C2_later_body_first_position_witness:
  "extract_sections (''# Z'' @ LF # ''q'' @ LF # ''# A'' @ LF # ''x'' @ LF # ''# B'' @ LF # ''z'' @ LF # ''# A'' @ LF # ''y'' @ [LF])
     = [(''Z'', ''q''), (''A'', ''y''), (''B'', ''z'')]
   \<and> title ''# A'' = ''A'' \<and> strip (join_nl [''y'', '''']) = ''y'' \<and> sections_of_lines [''# Z'', ''q''] = [(''Z'', ''q'')]
   \<and> count_list (map fst (extract_sections
        (''# Z'' @ LF # ''q'' @ LF # ''# A'' @ LF # ''x'' @ LF # ''# B'' @ LF # ''z'' @ LF # ''# A'' @ LF # ''y'' @ [LF]))) ''A'' = 1
   \<and> map_of (extract_sections
        (''# Z'' @ LF # ''q'' @ LF # ''# A'' @ LF # ''x'' @ LF # ''# B'' @ LF # ''z'' @ LF # ''# A'' @ LF # ''y'' @ [LF])) ''A'' = Some ''y''
   \<and> takeWhile (\<lambda>k. k \<noteq> ''A'') (map fst (extract_sections
        (''# Z'' @ LF # ''q'' @ LF # ''# A'' @ LF # ''x'' @ LF # ''# B'' @ LF # ''z'' @ LF # ''# A'' @ LF # ''y'' @ [LF]))) = [''Z'']"
proof -
  let ?T = "''# Z'' @ LF # ''q'' @ LF # ''# A'' @ LF # ''x'' @ LF # ''# B'' @ LF # ''z'' @ LF # ''# A'' @ LF # ''y'' @ [LF]"
  have e: "extract_sections ?T = [(''Z'', ''q''), (''A'', ''y''), (''B'', ''z'')]"
    by code_simp
  have v: "title ''# A'' = ''A''" "strip (join_nl [''y'', '''']) = ''y''"
      "sections_of_lines [''# Z'', ''q''] = [(''Z'', ''q'')]"
    by code_simp+
  have "count_list (map fst (extract_sections ?T)) ''A'' = 1
       \<and> map_of (extract_sections ?T) ''A'' = Some (strip (join_nl [''y'', '''']))
       \<and> takeWhile (\<lambda>k. k \<noteq> ''A'') (map fst (extract_sections ?T)) = map fst (sections_of_lines [''# Z'', ''q''])"
    by (rule C2_later_body_first_position
          [where A = "[''# Z'', ''q'']" and ?h1.0 = "''# A''" and ?B1.0 = "[''x'']"
             and C = "[''# B'', ''z'']" and ?h2.0 = "''# A''" and ?B2.0 = "[''y'', '''']" and D = "[]"])
       code_simp+
  then show ?thesis using e v by simp
qed

theorem C2_counterexample:
  "split_on LF (''#'' @ LF # ''x'' @ LF # ''#'' @ LF # ''y'') = [''#'', ''x'', ''#'', ''y'']
   \<and> is_heading ''#'' \<and> \<not> is_heading ''x'' \<and> \<not> is_heading ''y''
   \<and> strip (join_nl [''x'']) = ''x'' \<and> strip (join_nl [''y'']) = ''y''
   \<and> count_list (map fst (extract_sections (''#'' @ LF # ''x'' @ LF # ''#'' @ LF # ''y''))) (title ''#'') \<noteq> 1"
  by code_simp

text \<open>
  C5, as the code has it. No entry of the result has an empty body. A heading line followed
  only by blank lines, up to the next heading or the end, leaves no trace: the result is
  that of the input without these lines. A heading line whose title is not empty and whose
  lines up to the next heading have a body that is not empty once trimmed has its title
  among the keys. The input of the claim gives the one entry \<open>Bold2\<close>.
\<close>

theorem C5_no_empty_body:
  "extract_sections (''**Bold**'' @ LF # LF # ''**Bold2**'' @ LF # ''Body'' @ [LF]) = [(''Bold2'', ''Body'')]
   \<and> (\<forall>text k v. (k, v) \<in> set (extract_sections text) \<longrightarrow> v \<noteq> [])
   \<and> (\<forall>text A h B D. split_on LF text = A @ h # B @ D \<and> is_heading h \<and> (\<forall>l\<in>set B. strip l = [])
          \<and> (D = [] \<or> is_heading (hd D)) \<longrightarrow>
        extract_sections text = sections_of_lines (A @ D))
   \<and> (\<forall>text A h B D. split_on LF text = A @ h # B @ D \<and> is_heading h \<and> title h \<noteq> []
          \<and> (\<forall>l\<in>set B. \<not> is_heading l) \<and> strip (join_nl B) \<noteq> [] \<and> (D = [] \<or> is_heading (hd D)) \<longrightarrow>
        title h \<in> fst ` set (extract_sections text))"
proof (intro conjI allI impI)
  show "extract_sections (''**Bold**'' @ LF # LF # ''**Bold2**'' @ LF # ''Body'' @ [LF]) = [(''Bold2'', ''Body'')]"
    by code_simp
next
  fix inp k v
  assume "(k, v) \<in> set (extract_sections inp)"
  then show "v \<noteq> []"
    using values_nonempty [of k v "split_on LF inp"] by (simp add: extract_sections_def)
next
  fix inp A h B D
  assume a: "split_on LF inp = A @ h # B @ D \<and> is_heading h \<and> (\<forall>l\<in>set B. strip l = [])
          \<and> (D = [] \<or> is_heading (hd D))"
  have "sections_of_lines (A @ h # B @ D) = sections_of_lines (A @ D)"
  proof (rule drop_segment)
    show "is_heading h" using a by simp
    show "\<forall>l\<in>set B. \<not> is_heading l" using a not_heading_blank by blast
    show "D = [] \<or> is_heading (hd D)" using a by simp
    show "title h = [] \<or> strip (join_nl B) = []" using a strip_join_blank by blast
  qed
  then show "extract_sections inp = sections_of_lines (A @ D)"
    using a by (simp add: extract_sections_def)
next
  fix inp A h B D
  assume a: "split_on LF inp = A @ h # B @ D \<and> is_heading h \<and> title h \<noteq> []
          \<and> (\<forall>l\<in>set B. \<not> is_heading l) \<and> strip (join_nl B) \<noteq> [] \<and> (D = [] \<or> is_heading (hd D))"
  have "title h \<in> fst ` set (sections_of_lines (A @ h # B @ D))"
    by (rule heading_retained) (use a in auto)
  then show "title h \<in> fst ` set (extract_sections inp)"
    using a by (simp add: extract_sections_def)
qed

theorem C5_no_empty_body_witness:
  "extract_sections (''# A'' @ LF # ''  '' @ LF # ''# B'' @ LF # ''x'') = sections_of_lines [''# B'', ''x'']
   \<and> sections_of_lines [''# B'', ''x''] = [(''B'', ''x'')]
   \<and> title ''# B'' \<in> fst ` set (extract_sections (''# A'' @ LF # ''  '' @ LF # ''# B'' @ LF # ''x''))
   \<and> (''B'', ''x'') \<in> set (extract_sections (''# A'' @ LF # ''  '' @ LF # ''# B'' @ LF # ''x''))
   \<and> ''x'' \<noteq> []"
proof -
  let ?T = "''# A'' @ LF # ''  '' @ LF # ''# B'' @ LF # ''x''"
  have 1: "split_on LF ?T = [] @ ''# A'' # [''  ''] @ [''# B'', ''x''] \<and> is_heading ''# A''
      \<and> (\<forall>l\<in>set [''  '']. strip l = []) \<and> ([''# B'', ''x''] = [] \<or> is_heading (hd [''# B'', ''x'']))"
    by code_simp
  have 2: "split_on LF ?T = [''# A'', ''  ''] @ ''# B'' # [''x''] @ [] \<and> is_heading ''# B'' \<and> title ''# B'' \<noteq> []
      \<and> (\<forall>l\<in>set [''x'']. \<not> is_heading l) \<and> strip (join_nl [''x'']) \<noteq> [] \<and> ([] = [] \<or> is_heading (hd []))"
    by code_simp
  have 3: "sections_of_lines [''# B'', ''x''] = [(''B'', ''x'')]"
    by code_simp
  have a: "extract_sections ?T = sections_of_lines ([] @ [''# B'', ''x''])"
    using C5_no_empty_body 1 by blast
  have b: "title ''# B'' \<in> fst ` set (extract_sections ?T)"
    using C5_no_empty_body 2 by blast
  have c: "(''B'', ''x'') \<in> set (extract_sections ?T)"
    using a 3 by simp
  have "''x'' \<noteq> []"
    using C5_no_empty_body c by blast
  then show ?thesis using a b c 3 by simp
qed

theorem C5_counterexample:
  "split_on LF (''#'' @ LF # ''Body'') = [''#'', ''Body''] \<and> is_heading ''#'' \<and> \<not> is_heading ''Body''
   \<and> strip ''Body'' = ''Body'' \<and> extract_sections (''#'' @ LF # ''Body'') = []"
  by code_simp

text \<open>
  C7. The function is a fold over the finitely many lines of the input and has no failing
  branch: every string has a result. The empty string gives the empty mapping, and so does
  every string none of whose lines is a heading line.
\<close>

theorem C7_total_no_heading_empty:
  "extract_sections [] = []
   \<and> (\<forall>text. (\<forall>line\<in>set (split_on LF text). \<not> is_heading line) \<longrightarrow> extract_sections text = [])
   \<and> (\<forall>text. \<exists>m. extract_sections text = m \<and> distinct (map fst m))"
proof (intro conjI allI impI)
  show "extract_sections [] = []" by code_simp
next
  fix inp
  assume "\<forall>line\<in>set (split_on LF inp). \<not> is_heading line"
  then show "extract_sections inp = []"
    by (simp add: extract_sections_def no_heading_lines)
next
  fix inp
  show "\<exists>m. extract_sections inp = m \<and> distinct (map fst m)"
    using wf_sections_of_lines [of "split_on LF inp"]
    by (simp add: extract_sections_def wf_sections_def)
qed

theorem C7_total_no_heading_empty_witness:
  "list_all (\<lambda>line. \<not> is_heading line) (split_on LF (''plain text'' @ LF # '' - a list item'' @ LF # ''*emphasis*''))
   \<and> extract_sections (''plain text'' @ LF # '' - a list item'' @ LF # ''*emphasis*'') = []"
proof -
  have h: "\<forall>line\<in>set (split_on LF (''plain text'' @ LF # '' - a list item'' @ LF # ''*emphasis*'')). \<not> is_heading line"
    by code_simp
  then have l: "list_all (\<lambda>line. \<not> is_heading line) (split_on LF (''plain text'' @ LF # '' - a list item'' @ LF # ''*emphasis*''))"
    by (simp add: list_all_iff)
  from C7_total_no_heading_empty h
  have "extract_sections (''plain text'' @ LF # '' - a list item'' @ LF # ''*emphasis*'') = []"
    by blast
  then show ?thesis using l by simp
qed

text \<open>
  C8. The empty string is never a key. A heading line whose title is empty commits nothing,
  and the lines after it up to the next heading (or the end) are dropped: the result is
  that of the input without the heading line and these lines. A line of \<open>#\<close>, \<open>*\<close> and
  spaces that starts with \<open>#\<close> is such a heading line.
\<close>

theorem C8_no_empty_key:
  "(\<forall>text k v. (k, v) \<in> set (extract_sections text) \<longrightarrow> k \<noteq> [])
   \<and> (\<forall>text A h B D. split_on LF text = A @ h # B @ D \<and> is_heading h \<and> title h = []
          \<and> (\<forall>l\<in>set B. \<not> is_heading l) \<and> (D = [] \<or> is_heading (hd D)) \<longrightarrow>
        extract_sections text = sections_of_lines (A @ D))
   \<and> is_heading ''# * #'' \<and> title ''# * #'' = []
   \<and> extract_sections (''# * #'' @ LF # ''lost'' @ LF # ''## Kept'' @ LF # ''body'') = [(''Kept'', ''body'')]"
proof (intro conjI allI impI)
  fix inp k v
  assume "(k, v) \<in> set (extract_sections inp)"
  then show "k \<noteq> []"
    using values_nonempty [of k v "split_on LF inp"] by (simp add: extract_sections_def)
next
  fix inp A h B D
  assume a: "split_on LF inp = A @ h # B @ D \<and> is_heading h \<and> title h = []
          \<and> (\<forall>l\<in>set B. \<not> is_heading l) \<and> (D = [] \<or> is_heading (hd D))"
  have "sections_of_lines (A @ h # B @ D) = sections_of_lines (A @ D)"
    by (rule drop_segment) (use a in auto)
  then show "extract_sections inp = sections_of_lines (A @ D)"
    using a by (simp add: extract_sections_def)
next
  show "is_heading ''# * #''" by code_simp
  show "title ''# * #'' = []" by code_simp
  show "extract_sections (''# * #'' @ LF # ''lost'' @ LF # ''## Kept'' @ LF # ''body'') = [(''Kept'', ''body'')]"
    by code_simp
qed

theorem C8_no_empty_key_witness:
  "extract_sections (''1. One'' @ LF # ''a'' @ LF # ''##'' @ LF # ''lost'' @ LF # ''more'' @ LF # ''2. Two'' @ LF # ''b'')
     = sections_of_lines [''1. One'', ''a'', ''2. Two'', ''b'']
   \<and> sections_of_lines [''1. One'', ''a'', ''2. Two'', ''b''] = [(''1. One'', ''a''), (''2. Two'', ''b'')]
   \<and> ''1. One'' \<noteq> []"
proof -
  let ?T = "''1. One'' @ LF # ''a'' @ LF # ''##'' @ LF # ''lost'' @ LF # ''more'' @ LF # ''2. Two'' @ LF # ''b''"
  have 1: "split_on LF ?T = [''1. One'', ''a''] @ ''##'' # [''lost'', ''more''] @ [''2. Two'', ''b'']
      \<and> is_heading ''##'' \<and> title ''##'' = [] \<and> (\<forall>l\<in>set [''lost'', ''more'']. \<not> is_heading l)
      \<and> ([''2. Two'', ''b''] = [] \<or> is_heading (hd [''2. Two'', ''b'']))"
    by code_simp
  have 3: "sections_of_lines [''1. One'', ''a'', ''2. Two'', ''b''] = [(''1. One'', ''a''), (''2. Two'', ''b'')]"
    by code_simp
  have a: "extract_sections ?T = sections_of_lines ([''1. One'', ''a''] @ [''2. Two'', ''b''])"
    using C8_no_empty_key 1 by blast
  then have "(''1. One'', ''a'') \<in> set (extract_sections ?T)"
    using 3 by simp
  then have "''1. One'' \<noteq> []"
    using C8_no_empty_key by blast
  then show ?thesis using a 3 by simp
qed

section \<open>Claims on extract_tables\<close>

text \<open>
  C3. Whatever the table constructor does, the function returns: the tables are the
  results of the matched blocks that the constructor accepted, in the order of the blocks,
  and the diagnostics are the errors of the blocks it refused, one for each, so that every
  block is in exactly one of the two lists. \<open>lines[0]\<close> never fails on a matched block.
  With the pandas constructor, a first block whose row has one cell under two column names
  is dropped with one diagnostic and the block after it is still returned.
\<close>

theorem C3_failed_blocks_dropped:
  "extract_tables_with ctor inp =
     ([df. Inr df \<leftarrow> map (parse_table ctor) (finditer table_pattern inp)],
      [e. Inl e \<leftarrow> map (parse_table ctor) (finditer table_pattern inp)])
   \<and> length (fst (extract_tables_with ctor inp)) + length (snd (extract_tables_with ctor inp))
       = length (finditer table_pattern inp)
   \<and> list_all (\<lambda>m. parse_table ctor m \<noteq> Inl IndexError) (finditer table_pattern inp)
   \<and> extract_tables (''|a|b|'' @ LF # ''|-|-|'' @ LF # ''|x|'' @ LF # LF # ''|c|'' @ LF # ''|-|'' @ LF # ''|y|'' @ [LF])
       = ([Table [''c''] [[Some ''y'']]], [Raised ValueError])"
proof (intro conjI)
  show e: "extract_tables_with ctor inp =
     ([df. Inr df \<leftarrow> map (parse_table ctor) (finditer table_pattern inp)],
      [e. Inl e \<leftarrow> map (parse_table ctor) (finditer table_pattern inp)])"
    by (rule extract_tables_with_eq)
  have "length [df. Inr df \<leftarrow> map (parse_table ctor) ms] + length [e. Inl e \<leftarrow> map (parse_table ctor) ms]
          = length ms" for ms
    by (induction ms) (auto split: sum.splits)
  then show "length (fst (extract_tables_with ctor inp)) + length (snd (extract_tables_with ctor inp))
       = length (finditer table_pattern inp)"
    unfolding e by simp
  show "list_all (\<lambda>m. parse_table ctor m \<noteq> Inl IndexError) (finditer table_pattern inp)"
    unfolding list_all_iff using finditer_table_block parse_table_no_IndexError by blast
  show "extract_tables (''|a|b|'' @ LF # ''|-|-|'' @ LF # ''|x|'' @ LF # LF # ''|c|'' @ LF # ''|-|'' @ LF # ''|y|'' @ [LF])
       = ([Table [''c''] [[Some ''y'']]], [Raised ValueError])"
    by code_simp
qed

theorem C3_failed_blocks_dropped_witness:
  "extract_tables (''|a|b|'' @ LF # ''|-|-|'' @ LF # ''|x|'' @ LF # LF # ''|c|'' @ LF # ''|-|'' @ LF # ''|y|'' @ [LF])
     = ([Table [''c''] [[Some ''y'']]], [Raised ValueError])
   \<and> length (finditer table_pattern
        (''|a|b|'' @ LF # ''|-|-|'' @ LF # ''|x|'' @ LF # LF # ''|c|'' @ LF # ''|-|'' @ LF # ''|y|'' @ [LF])) = 2"
proof -
  let ?T = "''|a|b|'' @ LF # ''|-|-|'' @ LF # ''|x|'' @ LF # LF # ''|c|'' @ LF # ''|-|'' @ LF # ''|y|'' @ [LF]"
  have 1: "extract_tables ?T = ([Table [''c''] [[Some ''y'']]], [Raised ValueError])"
    using C3_failed_blocks_dropped by blast
  have "length (fst (extract_tables_with DataFrame ?T)) + length (snd (extract_tables_with DataFrame ?T))
       = length (finditer table_pattern ?T)"
    using C3_failed_blocks_dropped [of DataFrame ?T] by blast
  then have "length (finditer table_pattern ?T) = 2"
    using 1 by (simp add: extract_tables_def)
  then show ?thesis using 1 by simp
qed

text \<open>
  C4. Every text that \<open>finditer\<close> yields is a part of the input of this shape: a line that
  starts and ends with a pipe, a line break, one or more characters that are pipes, hyphens,
  colons or whitespace, a line break, and one or more lines that start and end with a pipe,
  each with its line break. An input no part of which has this shape gives no table and no
  diagnostic. A header alone, a header followed by rows without a separator, and a header
  with a separator and no data line are not matched.
\<close>

theorem C4_only_table_blocks:
  "(\<forall>inp m. m \<in> set (finditer table_pattern inp) \<longrightarrow>
       table_block m \<and> (\<exists>pre post. inp = pre @ m @ post))
   \<and> (\<forall>ctor inp. (\<forall>pre m post. inp = pre @ m @ post \<longrightarrow> \<not> table_block m) \<longrightarrow>
       extract_tables_with ctor inp = ([], []))
   \<and> (\<forall>inp. (\<forall>pre m post. inp = pre @ m @ post \<longrightarrow> \<not> table_block m) \<longrightarrow>
       extract_tables inp = ([], []))
   \<and> extract_tables (''|a|b|'' @ [LF]) = ([], [])
   \<and> extract_tables (''|a|b|'' @ LF # ''|x|y|'' @ LF # ''|z|w|'' @ [LF]) = ([], [])
   \<and> extract_tables (''|a|b|'' @ LF # ''|-|-|'' @ [LF]) = ([], [])
   \<and> extract_tables (''|a|b|'' @ LF # ''|-|-|'' @ LF # ''no row here'' @ [LF]) = ([], [])"
proof -
  have none: "extract_tables_with ctor inp = ([], [])"
    if "\<forall>pre m post. inp = pre @ m @ post \<longrightarrow> \<not> table_block m" for ctor and inp
  proof -
    have "finditer table_pattern inp = []"
    proof (rule ccontr)
      assume "finditer table_pattern inp \<noteq> []"
      then obtain m where "m \<in> set (finditer table_pattern inp)"
        by (cases "finditer table_pattern inp") auto
      then show False using finditer_table_block that by blast
    qed
    then show ?thesis by (simp add: extract_tables_with_def)
  qed
  have 1: "\<forall>inp m. m \<in> set (finditer table_pattern inp) \<longrightarrow>
       table_block m \<and> (\<exists>pre post. inp = pre @ m @ post)"
    using finditer_table_block by blast
  have 2: "\<forall>ctor inp. (\<forall>pre m post. inp = pre @ m @ post \<longrightarrow> \<not> table_block m) \<longrightarrow>
       extract_tables_with ctor inp = ([], [])"
    using none by blast
  have 3: "\<forall>inp. (\<forall>pre m post. inp = pre @ m @ post \<longrightarrow> \<not> table_block m) \<longrightarrow>
       extract_tables inp = ([], [])"
    using none [of _ DataFrame] by (simp add: extract_tables_def)
  have 4: "extract_tables (''|a|b|'' @ [LF]) = ([], [])" by code_simp
  have 5: "extract_tables (''|a|b|'' @ LF # ''|x|y|'' @ LF # ''|z|w|'' @ [LF]) = ([], [])" by code_simp
  have 6: "extract_tables (''|a|b|'' @ LF # ''|-|-|'' @ [LF]) = ([], [])" by code_simp
  have 7: "extract_tables (''|a|b|'' @ LF # ''|-|-|'' @ LF # ''no row here'' @ [LF]) = ([], [])" by code_simp
  show ?thesis using 1 2 3 4 5 6 7 by (intro conjI)
qed

theorem C4_only_table_blocks_witness:
  "finditer table_pattern (''x |a|'' @ LF # ''|-|'' @ LF # ''|1|'' @ LF # ''y'') = [''|a|'' @ LF # ''|-|'' @ LF # ''|1|'' @ [LF]]
   \<and> table_block (''|a|'' @ LF # ''|-|'' @ LF # ''|1|'' @ [LF])
   \<and> length (filter is_break (''|a|b|'' @ LF # ''|-|-|'' @ [LF])) = 2
   \<and> extract_tables (''|a|b|'' @ LF # ''|-|-|'' @ [LF]) = ([], [])"
proof -
  let ?T = "''x |a|'' @ LF # ''|-|'' @ LF # ''|1|'' @ LF # ''y''"
  let ?B = "''|a|'' @ LF # ''|-|'' @ LF # ''|1|'' @ [LF]"
  let ?U = "''|a|b|'' @ LF # ''|-|-|'' @ [LF]"
  have f: "finditer table_pattern ?T = [?B]" by code_simp
  then have "?B \<in> set (finditer table_pattern ?T)" by simp
  then have b: "table_block ?B" using C4_only_table_blocks by blast
  have c: "length (filter is_break ?U) = 2" by code_simp
  have "\<forall>pre m post. ?U = pre @ m @ post \<longrightarrow> \<not> table_block m"
  proof (intro allI impI notI)
    fix pre m post
    assume "?U = pre @ m @ post" and "table_block m"
    then have "3 \<le> length (filter is_break ?U)"
      using table_block_shape [of m] filter_sublist_le [of is_break m pre post] by simp
    then show False using c by simp
  qed
  then have "extract_tables ?U = ([], [])" using C4_only_table_blocks by blast
  then show ?thesis using f b c by simp
qed

text \<open>
  C6. The block with the header line \<open>|c1|c2|\<close>, the separator line \<open>|-|-|\<close> and the
  data line \<open>|a|b|\<close>, each ended by a line feed, for any cells without a pipe or a line
  break, wherever the block stands: after any text without a pipe (the \<open>H\<close> before the
  header's first pipe is such a text) and before any text that does not go on with a pipe
  (the block has one data line); when the data line has only separator characters, the
  text after it must not start with one. The block is the first match. The constructor is
  given the one row of the trimmed \<open>a\<close>, \<open>b\<close> and the columns of the trimmed \<open>c1\<close>,
  \<open>c2\<close>, whatever it does with them; with the pandas constructor the first table has these
  columns and this one row, no diagnostic comes from the block, and the tables of the rest
  follow. The input of the claim is the case of the cells \<open>c1\<close>, \<open>c2\<close>, \<open>a\<close>, \<open>b\<close> after
  \<open>H\<close>.
\<close>

theorem C6_valid_block:
  "(\<forall>ctor pre c1 c2 a b post.
      CHR ''|'' \<notin> set pre
      \<and> valid_cell c1 \<and> valid_cell c2 \<and> valid_cell a \<and> valid_cell b
      \<and> (post = [] \<or> hd post \<noteq> CHR ''|'')
      \<and> ((\<exists>c\<in>set (a @ b). \<not> sep_char c) \<or> post = [] \<or> \<not> sep_char (hd post)) \<longrightarrow>
      finditer table_pattern (pre @ cells_block c1 c2 a b @ post)
        = cells_block c1 c2 a b # finditer table_pattern post
      \<and> parse_table ctor (cells_block c1 c2 a b)
        = (case ctor [[strip a, strip b]] [strip c1, strip c2] of
             Inl e \<Rightarrow> Inl (Raised e) | Inr df \<Rightarrow> Inr df))
   \<and> (\<forall>pre c1 c2 a b post.
      CHR ''|'' \<notin> set pre
      \<and> valid_cell c1 \<and> valid_cell c2 \<and> valid_cell a \<and> valid_cell b
      \<and> (post = [] \<or> hd post \<noteq> CHR ''|'')
      \<and> ((\<exists>c\<in>set (a @ b). \<not> sep_char c) \<or> post = [] \<or> \<not> sep_char (hd post)) \<longrightarrow>
      extract_tables (pre @ cells_block c1 c2 a b @ post)
        = (Table [strip c1, strip c2] [[Some (strip a), Some (strip b)]] # fst (extract_tables post),
           snd (extract_tables post)))
   \<and> ''H'' @ cells_block ''c1'' ''c2'' ''a'' ''b'' = ''H|c1|c2|'' @ LF # ''|-|-|'' @ LF # ''|a|b|'' @ [LF]
   \<and> extract_tables (''H|c1|c2|'' @ LF # ''|-|-|'' @ LF # ''|a|b|'' @ [LF])
        = ([Table [''c1'', ''c2''] [[Some ''a'', Some ''b'']]], [])"
proof (intro conjI allI impI)
  fix ctor :: "string list list \<Rightarrow> string list \<Rightarrow> 'e + 'df" and pre c1 c2 a b post
  assume h: "CHR ''|'' \<notin> set pre
      \<and> valid_cell c1 \<and> valid_cell c2 \<and> valid_cell a \<and> valid_cell b
      \<and> (post = [] \<or> hd post \<noteq> CHR ''|'')
      \<and> ((\<exists>c\<in>set (a @ b). \<not> sep_char c) \<or> post = [] \<or> \<not> sep_char (hd post))"
  note p = h [THEN conjunct1]
    and v1 = h [THEN conjunct2, THEN conjunct1]
    and v2 = h [THEN conjunct2, THEN conjunct2, THEN conjunct1]
    and v3 = h [THEN conjunct2, THEN conjunct2, THEN conjunct2, THEN conjunct1]
    and v4 = h [THEN conjunct2, THEN conjunct2, THEN conjunct2, THEN conjunct2, THEN conjunct1]
    and po = h [THEN conjunct2, THEN conjunct2, THEN conjunct2, THEN conjunct2, THEN conjunct2,
                THEN conjunct1]
    and cx = h [THEN conjunct2, THEN conjunct2, THEN conjunct2, THEN conjunct2, THEN conjunct2,
                THEN conjunct2]
  show "finditer table_pattern (pre @ cells_block c1 c2 a b @ post)
        = cells_block c1 c2 a b # finditer table_pattern post"
    by (rule valid_block_finditer [OF p v1 v2 v3 v4 po cx])
  show "parse_table ctor (cells_block c1 c2 a b)
        = (case ctor [[strip a, strip b]] [strip c1, strip c2] of
             Inl e \<Rightarrow> Inl (Raised e) | Inr df \<Rightarrow> Inr df)"
    by (rule valid_block_parse [OF v1 v2 v3 v4])
next
  fix pre c1 c2 a b post
  assume h: "CHR ''|'' \<notin> set pre
      \<and> valid_cell c1 \<and> valid_cell c2 \<and> valid_cell a \<and> valid_cell b
      \<and> (post = [] \<or> hd post \<noteq> CHR ''|'')
      \<and> ((\<exists>c\<in>set (a @ b). \<not> sep_char c) \<or> post = [] \<or> \<not> sep_char (hd post))"
  note p = h [THEN conjunct1]
    and v1 = h [THEN conjunct2, THEN conjunct1]
    and v2 = h [THEN conjunct2, THEN conjunct2, THEN conjunct1]
    and v3 = h [THEN conjunct2, THEN conjunct2, THEN conjunct2, THEN conjunct1]
    and v4 = h [THEN conjunct2, THEN conjunct2, THEN conjunct2, THEN conjunct2, THEN conjunct1]
    and po = h [THEN conjunct2, THEN conjunct2, THEN conjunct2, THEN conjunct2, THEN conjunct2,
                THEN conjunct1]
    and cx = h [THEN conjunct2, THEN conjunct2, THEN conjunct2, THEN conjunct2, THEN conjunct2,
                THEN conjunct2]
  have d: "DataFrame [[strip a, strip b]] [strip c1, strip c2]
      = Inr (Table [strip c1, strip c2] [[Some (strip a), Some (strip b)]])"
    by (simp add: DataFrame_def)
  have pt: "parse_table DataFrame (cells_block c1 c2 a b)
      = Inr (Table [strip c1, strip c2] [[Some (strip a), Some (strip b)]])"
    unfolding valid_block_parse [OF v1 v2 v3 v4] d by simp
  show "extract_tables (pre @ cells_block c1 c2 a b @ post)
        = (Table [strip c1, strip c2] [[Some (strip a), Some (strip b)]] # fst (extract_tables post),
           snd (extract_tables post))"
    unfolding extract_tables_def extract_tables_with_eq
      valid_block_finditer [OF p v1 v2 v3 v4 po cx]
    using pt by simp
next
  show "''H'' @ cells_block ''c1'' ''c2'' ''a'' ''b'' = ''H|c1|c2|'' @ LF # ''|-|-|'' @ LF # ''|a|b|'' @ [LF]"
    by (simp add: cells_block_def)
next
  show "extract_tables (''H|c1|c2|'' @ LF # ''|-|-|'' @ LF # ''|a|b|'' @ [LF])
        = ([Table [''c1'', ''c2''] [[Some ''a'', Some ''b'']]], [])"
    by code_simp
qed

theorem C6_valid_block_witness:
  "valid_cell '' Item '' \<and> valid_cell ''Cost'' \<and> valid_cell ''shoes '' \<and> valid_cell '' 120''
   \<and> extract_tables (''Costs: H'' @ cells_block '' Item '' ''Cost'' ''shoes '' '' 120'' @ LF # ''Next'')
        = ([Table [''Item'', ''Cost''] [[Some ''shoes'', Some ''120'']]], [])
   \<and> extract_tables (cells_block ''x'' ''y'' ''-'' '' '' @ ''z'')
        = ([Table [''x'', ''y''] [[Some ''-'', Some '''']]], [])
   \<and> finditer table_pattern (''Costs: H'' @ cells_block '' Item '' ''Cost'' ''shoes '' '' 120'' @ LF # ''Next'')
        = [cells_block '' Item '' ''Cost'' ''shoes '' '' 120'']"
proof -
  have v: "valid_cell '' Item ''" "valid_cell ''Cost''" "valid_cell ''shoes ''" "valid_cell '' 120''"
    "valid_cell ''x''" "valid_cell ''y''" "valid_cell ''-''" "valid_cell '' ''"
    by code_simp+
  have h1: "CHR ''|'' \<notin> set ''Costs: H''
      \<and> valid_cell '' Item '' \<and> valid_cell ''Cost'' \<and> valid_cell ''shoes '' \<and> valid_cell '' 120''
      \<and> (LF # ''Next'' = [] \<or> hd (LF # ''Next'') \<noteq> CHR ''|'')
      \<and> ((\<exists>c\<in>set (''shoes '' @ '' 120''). \<not> sep_char c) \<or> LF # ''Next'' = [] \<or> \<not> sep_char (hd (LF # ''Next'')))"
    using v by (simp add: sep_char_def isspace_def)
  have h2: "CHR ''|'' \<notin> set []
      \<and> valid_cell ''x'' \<and> valid_cell ''y'' \<and> valid_cell ''-'' \<and> valid_cell '' ''
      \<and> (''z'' = [] \<or> hd ''z'' \<noteq> CHR ''|'')
      \<and> ((\<exists>c\<in>set (''-'' @ '' ''). \<not> sep_char c) \<or> ''z'' = [] \<or> \<not> sep_char (hd ''z''))"
    using v by (simp add: sep_char_def isspace_def)
  have r: "extract_tables (LF # ''Next'') = ([], [])" "extract_tables ''z'' = ([], [])"
    "finditer table_pattern (LF # ''Next'') = []"
    "strip '' Item '' = ''Item''" "strip ''Cost'' = ''Cost''" "strip ''shoes '' = ''shoes''"
    "strip '' 120'' = ''120''" "strip ''x'' = ''x''" "strip ''y'' = ''y''" "strip ''-'' = ''-''"
    "strip '' '' = ''''"
    by code_simp+
  have e1: "extract_tables (''Costs: H'' @ cells_block '' Item '' ''Cost'' ''shoes '' '' 120'' @ LF # ''Next'')
        = (Table [strip '' Item '', strip ''Cost''] [[Some (strip ''shoes ''), Some (strip '' 120'')]]
             # fst (extract_tables (LF # ''Next'')), snd (extract_tables (LF # ''Next'')))"
    by (rule C6_valid_block [THEN conjunct2, THEN conjunct1, rule_format, OF h1])
  have e2: "extract_tables ([] @ cells_block ''x'' ''y'' ''-'' '' '' @ ''z'')
        = (Table [strip ''x'', strip ''y''] [[Some (strip ''-''), Some (strip '' '')]]
             # fst (extract_tables ''z''), snd (extract_tables ''z''))"
    by (rule C6_valid_block [THEN conjunct2, THEN conjunct1, rule_format, OF h2])
  have f1: "finditer table_pattern (''Costs: H'' @ cells_block '' Item '' ''Cost'' ''shoes '' '' 120'' @ LF # ''Next'')
        = cells_block '' Item '' ''Cost'' ''shoes '' '' 120'' # finditer table_pattern (LF # ''Next'')"
    using C6_valid_block [THEN conjunct1, rule_format, OF h1, where ctor = DataFrame] by (rule conjunct1)
  have e2': "extract_tables (cells_block ''x'' ''y'' ''-'' '' '' @ ''z'')
        = (Table [strip ''x'', strip ''y''] [[Some (strip ''-''), Some (strip '' '')]]
             # fst (extract_tables ''z''), snd (extract_tables ''z''))"
    using e2 by (simp only: append_Nil)
  show ?thesis
    using v e1 e2' f1 r by (simp del: append.simps)
qed

text \<open>
  C9, as the code has it. A data row is matched only with the line break after it, and a
  carriage return is such a line break as well as a line feed. Every matched text ends
  with a line break; a tail of the input that has no line break changes neither the
  matches nor the result; an input with fewer than three line breaks gives no table. So a
  header and a separator followed by a row that nothing ends give no table, and of two
  rows the second of which nothing ends only the first is in the table. A sole row ended
  by a carriage return is in the table.
\<close>

theorem C9_rows_need_line_break:
  "(\<forall>inp m. m \<in> set (finditer table_pattern inp) \<longrightarrow> m \<noteq> [] \<and> is_break (last m))
   \<and> (\<forall>body tail. (\<forall>c\<in>set tail. \<not> is_break c) \<longrightarrow>
        finditer table_pattern (body @ tail) = finditer table_pattern body
        \<and> extract_tables (body @ tail) = extract_tables body)
   \<and> (\<forall>inp. length (filter is_break inp) < 3 \<longrightarrow> extract_tables inp = ([], []))
   \<and> extract_tables (''|a|'' @ LF # ''|-|'' @ LF # ''|x|'') = ([], [])
   \<and> extract_tables (''|a|'' @ LF # ''|-|'' @ LF # ''|x|'' @ LF # ''|y|'') = ([Table [''a''] [[Some ''x'']]], [])
   \<and> extract_tables (''|a|'' @ LF # ''|-|'' @ LF # ''|x|'' @ [CR]) = ([Table [''a''] [[Some ''x'']]], [])
   \<and> (\<forall>c. is_break c \<longleftrightarrow> c = CR \<or> c = LF)"
proof -
  have 1: "\<forall>inp m. m \<in> set (finditer table_pattern inp) \<longrightarrow> m \<noteq> [] \<and> is_break (last m)"
    using finditer_table_block table_block_shape by blast
  have 2: "\<forall>body tail. (\<forall>c\<in>set tail. \<not> is_break c) \<longrightarrow>
        finditer table_pattern (body @ tail) = finditer table_pattern body
        \<and> extract_tables (body @ tail) = extract_tables body"
    by (simp add: extract_tables_def extract_tables_with_def finditer_tail)
  have 3: "\<forall>inp. length (filter is_break inp) < 3 \<longrightarrow> extract_tables inp = ([], [])"
    by (simp add: extract_tables_def extract_tables_with_def few_breaks_no_match)
  have 4: "extract_tables (''|a|'' @ LF # ''|-|'' @ LF # ''|x|'') = ([], [])" by code_simp
  have 5: "extract_tables (''|a|'' @ LF # ''|-|'' @ LF # ''|x|'' @ LF # ''|y|'') = ([Table [''a''] [[Some ''x'']]], [])"
    by code_simp
  have 6: "extract_tables (''|a|'' @ LF # ''|-|'' @ LF # ''|x|'' @ [CR]) = ([Table [''a''] [[Some ''x'']]], [])"
    by code_simp
  have 7: "\<forall>c. is_break c \<longleftrightarrow> c = CR \<or> c = LF" by (simp add: is_break_def)
  show ?thesis using 1 2 3 4 5 6 7 by (intro conjI)
qed

theorem C9_rows_need_line_break_witness:
  "finditer table_pattern (''|a|'' @ LF # ''|-|'' @ LF # ''|x|'' @ LF # ''|y|'') = [''|a|'' @ LF # ''|-|'' @ LF # ''|x|'' @ [LF]]
   \<and> is_break (last (''|a|'' @ LF # ''|-|'' @ LF # ''|x|'' @ [LF]))
   \<and> extract_tables ((''|a|'' @ LF # ''|-|'' @ LF # ''|x|'' @ [LF]) @ ''|y|'')
       = extract_tables (''|a|'' @ LF # ''|-|'' @ LF # ''|x|'' @ [LF])
   \<and> length (filter is_break (''|a|'' @ LF # ''|-|'' @ LF # ''|x|'')) = 2
   \<and> extract_tables (''|a|'' @ LF # ''|-|'' @ LF # ''|x|'') = ([], [])"
proof -
  let ?B = "''|a|'' @ LF # ''|-|'' @ LF # ''|x|'' @ [LF]"
  have f: "finditer table_pattern (?B @ ''|y|'') = [?B]" by code_simp
  then have m: "?B \<in> set (finditer table_pattern (?B @ ''|y|''))" by simp
  have l: "is_break (last ?B)"
    using C9_rows_need_line_break [THEN conjunct1, rule_format, OF m] by (rule conjunct2)
  have t: "\<forall>c\<in>set ''|y|''. \<not> is_break c" by code_simp
  have s: "extract_tables (?B @ ''|y|'') = extract_tables ?B"
    using C9_rows_need_line_break [THEN conjunct2, THEN conjunct1, THEN spec, THEN spec, THEN mp, OF t]
    by (rule conjunct2)
  have c: "length (filter is_break (''|a|'' @ LF # ''|-|'' @ LF # ''|x|'')) = 2" by code_simp
  then have "length (filter is_break (''|a|'' @ LF # ''|-|'' @ LF # ''|x|'')) < 3" by simp
  then have e: "extract_tables (''|a|'' @ LF # ''|-|'' @ LF # ''|x|'') = ([], [])"
    by (rule C9_rows_need_line_break [THEN conjunct2, THEN conjunct2, THEN conjunct1, rule_format])
  show ?thesis using f l c e s by simp
qed

theorem C9_counterexample:
  "last (''|a|'' @ LF # ''|-|'' @ LF # ''|x|'' @ [CR]) \<noteq> LF
   \<and> split_on LF (''|a|'' @ LF # ''|-|'' @ LF # ''|x|'' @ [CR]) = [''|a|'', ''|-|'', ''|x|'' @ [CR]]
   \<and> extract_tables (''|a|'' @ LF # ''|-|'' @ LF # ''|x|'' @ [CR]) = ([Table [''a''] [[Some ''x'']]], [])"
  by code_simp



end
